theory Spec2Isabelle
  imports Main "HOL-Library.Signed_Division"
begin

section \<open>The guessing game: \<^verbatim>\<open>safe.c\<close> and \<^verbatim>\<open>vuln.c\<close>\<close>

text \<open>
  Both programs draw a secret in 1..100, read one guess from standard input, convert
  it with \<^verbatim>\<open>atoi\<close>, print a verdict and both numbers.

  Modelling decisions.
  \<^item> A \<^verbatim>\<open>char\<close> is an Isabelle \<^typ>\<open>char\<close> (a byte); the buffer is a
    \<^typ>\<open>char list\<close> of the declared size (100 in \<^verbatim>\<open>safe.c\<close>, 32 in
    \<^verbatim>\<open>vuln.c\<close>).
  \<^item> A \<^verbatim>\<open>char *\<close> into that array is the list of bytes from the pointee to the
    end of the array: \<^verbatim>\<open>*str\<close> is the head, \<^verbatim>\<open>str++\<close> the tail.
    Reading the head of \<open>[]\<close> is a read past the array.
  \<^item> A read or a write past the array is a value of type \<open>fault\<close>: what the program
    does from there on depends on memory this model does not hold.
  \<^item> The library functions are modelled as the C library of the built programs has
    them (glibc, with a 64-bit \<^verbatim>\<open>long\<close> and a 32-bit \<^verbatim>\<open>int\<close>).
  \<^item> \<^verbatim>\<open>buffer\<close> is never initialised, so its initial content is a parameter
    (\<open>init\<close>) of each program.
  \<^item> \<^verbatim>\<open>rand()\<close> after \<^verbatim>\<open>srand(time(NULL))\<close> is a parameter too (\<open>draw\<close>).
  \<^item> Standard input is the list of bytes still to be read; end-of-file is \<open>[]\<close>.
  \<^item> Output is a trace of events, one per \<^verbatim>\<open>printf\<close>/\<^verbatim>\<open>fprintf\<close> call, in
    program order.
\<close>

subsection \<open>Faults and sequencing\<close>

datatype fault = OutOfBoundsRead | OutOfBoundsWrite

definition and_then :: "fault + 'a \<Rightarrow> ('a \<Rightarrow> fault + 'b) \<Rightarrow> fault + 'b" where
  "and_then m k = (case m of Inl f \<Rightarrow> Inl f | Inr x \<Rightarrow> k x)"

subsection \<open>Characters\<close>

abbreviation NUL :: char where "NUL \<equiv> CHR 0x00"
abbreviation NL :: char where "NL \<equiv> CHR 0x0A"

text \<open>
  \<^verbatim>\<open>isdigit\<close> and \<^verbatim>\<open>isspace\<close> of \<^verbatim>\<open>ctype.h\<close>, in the C locale: the
  digits are the bytes 48 to 57, the white space is the space and the bytes 9 to 13. A
  byte above 127 is neither (as the tables of the usual C libraries have it).
\<close>

definition isdigit :: "char \<Rightarrow> bool" where
  "isdigit c = (48 \<le> (of_char c :: nat) \<and> (of_char c :: nat) \<le> 57)"

definition isspace :: "char \<Rightarrow> bool" where
  "isspace c = (c = CHR 0x20 \<or> c = CHR 0x09 \<or> c = CHR 0x0A \<or> c = CHR 0x0B
                \<or> c = CHR 0x0C \<or> c = CHR 0x0D)"

definition digit_val :: "char \<Rightarrow> int" where
  "digit_val c = int (of_char c) - 48"

subsection \<open>Array writes\<close>

text \<open>\<^verbatim>\<open>buf[i] = c\<close>: defined only inside the array.\<close>

definition store :: "char list \<Rightarrow> nat \<Rightarrow> char \<Rightarrow> fault + char list" where
  "store buf i c = (if i < length buf then Inr (buf[i := c]) else Inl OutOfBoundsWrite)"

subsection \<open>\<^verbatim>\<open>is_number\<close> (safe.c, lines 7-19)\<close>

text \<open>The \<^verbatim>\<open>while (*str)\<close> loop.\<close>

fun digits_loop :: "char list \<Rightarrow> fault + bool" where
  "digits_loop [] = Inl OutOfBoundsRead"
| "digits_loop (c # cs) =
     (if c = NUL then Inr True
      else if \<not> isdigit c then Inr False
      else digits_loop cs)"

definition is_number :: "char list \<Rightarrow> fault + bool" where
  "is_number str =
     (case str of
        [] \<Rightarrow> Inl OutOfBoundsRead
      | c # cs \<Rightarrow>
          (let str' = (if c = CHR ''-'' \<or> c = CHR ''+'' then cs else str)
           in case str' of
                [] \<Rightarrow> Inl OutOfBoundsRead
              | d # _ \<Rightarrow> if d = NUL then Inr False else digits_loop str'))"

subsection \<open>The grammar of the specification\<close>

text \<open>
  The specification's words: an optional single leading sign followed by at least one
  ASCII decimal digit, \<^verbatim>\<open>[+-]?[0-9]+\<close>. Written from the specification, to be
  compared with \<open>is_number\<close>.
\<close>

definition ascii_digit :: "char \<Rightarrow> bool" where
  "ascii_digit c = (c \<in> set ''0123456789'')"

definition digit_string :: "string \<Rightarrow> bool" where
  "digit_string ds = (ds \<noteq> [] \<and> list_all ascii_digit ds)"

definition numeral_grammar :: "string \<Rightarrow> bool" where
  "numeral_grammar s =
     (digit_string s \<or>
      (case s of [] \<Rightarrow> False
       | c # cs \<Rightarrow> (c = CHR ''+'' \<or> c = CHR ''-'') \<and> digit_string cs))"

subsection \<open>\<^verbatim>\<open>strcspn\<close>\<close>

text \<open>
  The length of the initial segment of the string with no byte of \<open>reject\<close>; the scan
  ends at the terminator.
\<close>

fun strcspn :: "char list \<Rightarrow> char list \<Rightarrow> fault + nat" where
  "strcspn [] reject = Inl OutOfBoundsRead"
| "strcspn (c # cs) reject =
     (if c = NUL \<or> c \<in> set reject then Inr 0
      else and_then (strcspn cs reject) (\<lambda>n. Inr (Suc n)))"

subsection \<open>\<^verbatim>\<open>fgets\<close>\<close>

text \<open>
  ISO C: \<^verbatim>\<open>fgets(s, n, stream)\<close> reads at most \<open>n - 1\<close> bytes, stops after a
  new-line (which it keeps) or at end-of-file, and writes a null byte after the last
  byte read. At end-of-file with nothing read it returns \<^verbatim>\<open>NULL\<close> and leaves the
  array as it was.

  \<open>fgets_loop room inp i buf\<close>: \<open>room\<close> bytes may still be read, \<open>i\<close> is the index
  of the next write. The result is the array, the number of bytes stored and the rest of
  the stream.
\<close>

fun fgets_loop :: "nat \<Rightarrow> char list \<Rightarrow> nat \<Rightarrow> char list \<Rightarrow> fault + (char list \<times> nat \<times> char list)" where
  "fgets_loop 0 inp i buf = Inr (buf, i, inp)"
| "fgets_loop (Suc room) [] i buf = Inr (buf, i, [])"
| "fgets_loop (Suc room) (c # cs) i buf =
     and_then (store buf i c) (\<lambda>buf'.
       if c = NL then Inr (buf', Suc i, cs) else fgets_loop room cs (Suc i) buf')"

text \<open>The first component of the result is \<open>False\<close> for a \<^verbatim>\<open>NULL\<close> return.\<close>

definition fgets :: "char list \<Rightarrow> nat \<Rightarrow> char list \<Rightarrow> fault + (bool \<times> char list \<times> char list)" where
  "fgets buf n inp =
     and_then (fgets_loop (n - 1) inp 0 buf) (\<lambda>(buf', i, rest).
       if i = 0 then Inr (False, buf, rest)
       else and_then (store buf' i NUL) (\<lambda>buf''. Inr (True, buf'', rest)))"

subsection \<open>\<^verbatim>\<open>scanf("%s", buffer)\<close>\<close>

text \<open>
  Skips white space, then stores every byte up to the next white space or end-of-file,
  then a null byte. There is no bound: the writes are checked against the array only
  by the model. At end-of-file before any byte of a token nothing is stored.
\<close>

fun scan_token :: "char list \<Rightarrow> nat \<Rightarrow> char list \<Rightarrow> fault + (char list \<times> nat \<times> char list)" where
  "scan_token [] i buf = Inr (buf, i, [])"
| "scan_token (c # cs) i buf =
     (if isspace c then Inr (buf, i, c # cs)
      else and_then (store buf i c) (\<lambda>buf'. scan_token cs (Suc i) buf'))"

definition scanf_s :: "char list \<Rightarrow> char list \<Rightarrow> fault + (bool \<times> char list \<times> char list)" where
  "scanf_s buf inp =
     (let inp' = dropWhile isspace inp
      in if inp' = [] then Inr (False, buf, [])
         else and_then (scan_token inp' 0 buf) (\<lambda>(buf', i, rest).
                and_then (store buf' i NUL) (\<lambda>buf''. Inr (True, buf'', rest))))"

subsection \<open>\<^verbatim>\<open>atoi\<close>\<close>

text \<open>
  glibc: \<^verbatim>\<open>atoi(s)\<close> is \<^verbatim>\<open>(int)strtol(s, NULL, 10)\<close>. \<^verbatim>\<open>strtol\<close> skips
  white space, takes an optional sign and then the longest run of digits (none gives 0);
  a value outside \<^verbatim>\<open>long\<close> comes back as \<^verbatim>\<open>LONG_MIN\<close> or
  \<^verbatim>\<open>LONG_MAX\<close>. The conversion to \<^verbatim>\<open>int\<close> keeps the low 32 bits. (ISO C
  leaves \<^verbatim>\<open>atoi\<close> undefined where the value does not fit \<^verbatim>\<open>int\<close>; this is what
  the built programs do there.)

  \<open>subject_value\<close> is the exact value of the text \<^verbatim>\<open>strtol\<close> scans, before it is
  brought into \<^verbatim>\<open>long\<close>.
\<close>

fun skip_space :: "char list \<Rightarrow> fault + char list" where
  "skip_space [] = Inl OutOfBoundsRead"
| "skip_space (c # cs) = (if isspace c then skip_space cs else Inr (c # cs))"

fun scan_digits :: "int \<Rightarrow> char list \<Rightarrow> fault + int" where
  "scan_digits acc [] = Inl OutOfBoundsRead"
| "scan_digits acc (c # cs) =
     (if isdigit c then scan_digits (10 * acc + digit_val c) cs else Inr acc)"

definition subject_value :: "char list \<Rightarrow> fault + int" where
  "subject_value str =
     and_then (skip_space str) (\<lambda>p.
       case p of
         [] \<Rightarrow> Inl OutOfBoundsRead
       | c # cs \<Rightarrow>
           if c = CHR ''-'' then and_then (scan_digits 0 cs) (\<lambda>v. Inr (- v))
           else if c = CHR ''+'' then scan_digits 0 cs
           else scan_digits 0 p)"

definition LONG_MIN :: int where "LONG_MIN = - 9223372036854775808"
definition LONG_MAX :: int where "LONG_MAX = 9223372036854775807"

definition strtol :: "char list \<Rightarrow> fault + int" where
  "strtol str =
     and_then (subject_value str) (\<lambda>v.
       Inr (if v < LONG_MIN then LONG_MIN else if LONG_MAX < v then LONG_MAX else v))"

definition INT_MIN :: int where "INT_MIN = - 2147483648"
definition INT_MAX :: int where "INT_MAX = 2147483647"

text \<open>\<^verbatim>\<open>(int)v\<close> for a \<^verbatim>\<open>long\<close> \<open>v\<close>: the value modulo \<open>2^32\<close>, read as signed.\<close>

definition to_int :: "int \<Rightarrow> int" where
  "to_int v = (v + 2147483648) mod 4294967296 - 2147483648"

definition atoi :: "char list \<Rightarrow> fault + int" where
  "atoi str = and_then (strtol str) (\<lambda>v. Inr (to_int v))"

subsection \<open>\<^verbatim>\<open>printf("%d")\<close>\<close>

text \<open>The decimal digits of the argument, with a minus sign when it is negative.\<close>

definition digit_char :: "nat \<Rightarrow> char" where
  "digit_char d = char_of (48 + d)"

fun digits_of :: "nat \<Rightarrow> string" where
  "digits_of n = (if n < 10 then [digit_char n] else digits_of (n div 10) @ [digit_char (n mod 10)])"

declare digits_of.simps [simp del]

definition render_int :: "int \<Rightarrow> string" where
  "render_int v = (if v < 0 then CHR ''-'' # digits_of (nat (- v)) else digits_of (nat v))"

subsection \<open>The secret (safe.c line 28, vuln.c line 24)\<close>

text \<open>
  \<^verbatim>\<open>rand() % 100 + 1\<close>. C's \<^verbatim>\<open>%\<close> truncates towards zero (\<open>smod\<close>);
  \<^verbatim>\<open>rand()\<close> returns a value in \<open>0..RAND_MAX\<close>.
\<close>

definition generate_secret :: "int \<Rightarrow> int" where
  "generate_secret draw = draw smod 100 + 1"

subsection \<open>Comparing and reporting (safe.c lines 53-62, vuln.c lines 33-42)\<close>

datatype verdict = TooSmall | TooLarge | Correct

definition compare :: "int \<Rightarrow> int \<Rightarrow> verdict" where
  "compare guess secret =
     (if guess < secret then TooSmall
      else if guess > secret then TooLarge
      else Correct)"

definition verdict_msg :: "verdict \<Rightarrow> string" where
  "verdict_msg v =
     (case v of
        TooSmall \<Rightarrow> ''too small'' @ [NL]
      | TooLarge \<Rightarrow> ''too much'' @ [NL]
      | Correct \<Rightarrow> ''congrats'' @ [NL])"

datatype event = Out string | Err string

definition printf :: "event list \<Rightarrow> string \<Rightarrow> event list" where
  "printf t s = t @ [Out s]"

definition eprintf :: "event list \<Rightarrow> string \<Rightarrow> event list" where
  "eprintf t s = t @ [Err s]"


fun stderr_of :: "event list \<Rightarrow> string list" where
  "stderr_of [] = []"
| "stderr_of (Out s # t) = stderr_of t"
| "stderr_of (Err s # t) = s # stderr_of t"

definition report :: "event list \<Rightarrow> int \<Rightarrow> int \<Rightarrow> event list" where
  "report t guess secret =
     (let t1 = printf t (verdict_msg (compare guess secret));
          t2 = printf t1 (''you guessed : '' @ render_int guess @ [NL]);
          t3 = printf t2 (''secret num. : '' @ render_int secret @ [NL])
      in t3)"

record outcome =
  out_trace :: "event list"
  out_guess :: int
  out_secret :: int

subsection \<open>\<^verbatim>\<open>main\<close> of safe.c\<close>

definition prompt :: string where
  "prompt = ''pls guess a number: ''"

definition read_error_msg :: string where
  "read_error_msg = ''Error reading input.'' @ [NL]"

definition invalid_msg :: string where
  "invalid_msg = ''Invalid input. Please enter a number.'' @ [NL]"

text \<open>Lines 30-39: prompt, \<^verbatim>\<open>fgets\<close>, the error message, the new-line removed.\<close>

definition acquire_line :: "char list \<Rightarrow> char list \<Rightarrow> fault + (event list \<times> char list)" where
  "acquire_line init inp =
     (let t0 = printf [] prompt
      in and_then (fgets init 100 inp) (\<lambda>(ok, buf, rest).
           let t1 = (if \<not> ok then eprintf t0 read_error_msg else t0)
           in and_then (strcspn buf [NL]) (\<lambda>j.
                and_then (store buf j NUL) (\<lambda>buf'. Inr (t1, buf')))))"

text \<open>Lines 44-47: four bytes are stored; no terminator is.\<close>

definition fallback :: "char list \<Rightarrow> fault + char list" where
  "fallback buf =
     and_then (store buf 0 (CHR ''1'')) (\<lambda>b0.
     and_then (store b0 1 (CHR ''3'')) (\<lambda>b1.
     and_then (store b1 2 (CHR ''3'')) (\<lambda>b2.
     store b2 3 (CHR ''7''))))"

text \<open>Lines 42-48.\<close>

definition check_input :: "event list \<Rightarrow> char list \<Rightarrow> fault + (event list \<times> char list)" where
  "check_input t buf =
     and_then (is_number buf) (\<lambda>valid.
       if \<not> valid
       then and_then (fallback buf) (\<lambda>buf'. Inr (eprintf t invalid_msg, buf'))
       else Inr (t, buf))"

definition main_safe :: "char list \<Rightarrow> char list \<Rightarrow> int \<Rightarrow> fault + outcome" where
  "main_safe inp init draw =
     (let secret = generate_secret draw
      in and_then (acquire_line init inp) (\<lambda>(t, buf).
         and_then (check_input t buf) (\<lambda>(t', buf').
         and_then (atoi buf') (\<lambda>guess.
           Inr \<lparr>out_trace = report t' guess secret, out_guess = guess, out_secret = secret\<rparr>))))"

subsection \<open>\<^verbatim>\<open>main\<close> of vuln.c\<close>

definition main_vuln :: "char list \<Rightarrow> char list \<Rightarrow> int \<Rightarrow> fault + outcome" where
  "main_vuln inp init draw =
     (let secret = generate_secret draw;
          t0 = printf [] prompt
      in and_then (scanf_s init inp) (\<lambda>(ok, buf, rest).
         and_then (atoi buf) (\<lambda>guess.
           Inr \<lparr>out_trace = report t0 guess secret, out_guess = guess, out_secret = secret\<rparr>)))"

subsection \<open>Vocabulary of the statements\<close>

text \<open>
  The bytes one \<^verbatim>\<open>fgets\<close> call takes from the stream when it may read \<open>room\<close>
  bytes: up to and including the first new-line, at most \<open>room\<close>.
\<close>

fun read_line :: "nat \<Rightarrow> char list \<Rightarrow> char list" where
  "read_line 0 inp = []"
| "read_line (Suc room) [] = []"
| "read_line (Suc room) (c # cs) = (if c = NL then [c] else c # read_line room cs)"

text \<open>
  The C string the program sees in an array once the new-line is cut: the bytes before
  the first null byte or new-line.
\<close>

definition line_text :: "char list \<Rightarrow> string" where
  "line_text buf = takeWhile (\<lambda>c. c \<noteq> NUL \<and> c \<noteq> NL) buf"

text \<open>The array after \<^verbatim>\<open>fgets(buffer, 100, stdin)\<close>; untouched at end-of-file.\<close>

definition after_fgets :: "char list \<Rightarrow> char list \<Rightarrow> char list" where
  "after_fgets init inp =
     (let l = read_line 99 inp
      in if l = [] then init else l @ NUL # drop (Suc (length l)) init)"

text \<open>The array after \<^verbatim>\<open>buffer[strcspn(buffer, "\n")] = '\0'\<close>, when the scan ends inside it.\<close>

definition after_strip :: "char list \<Rightarrow> char list" where
  "after_strip buf = line_text buf @ NUL # drop (Suc (length (line_text buf))) buf"

text \<open>An array that holds a null byte or a new-line: \<^verbatim>\<open>strcspn\<close> stops inside it.\<close>

definition terminated :: "char list \<Rightarrow> bool" where
  "terminated buf = (NUL \<in> set buf \<or> NL \<in> set buf)"

text \<open>What safe.c has printed when it reaches the validation (line 42).\<close>

definition first_events :: "char list \<Rightarrow> event list" where
  "first_events inp = (if inp = [] then [Out prompt, Err read_error_msg] else [Out prompt])"

text \<open>
  The array safe.c hands to \<^verbatim>\<open>atoi\<close> (line 50), from the array \<^verbatim>\<open>fgets\<close>
  left: the text itself when it is a numeral, otherwise the four bytes
  \<^verbatim>\<open>1337\<close> followed by whatever the array holds from index 4 on.
\<close>

definition atoi_operand :: "char list \<Rightarrow> char list" where
  "atoi_operand buf =
     (if numeral_grammar (line_text buf) then after_strip buf
      else ''1337'' @ drop 4 (after_strip buf))"

text \<open>The decimal value of a string of digits, most significant first.\<close>

definition decimal :: "string \<Rightarrow> int" where
  "decimal ds = foldl (\<lambda>a c. 10 * a + digit_val c) 0 ds"

text \<open>The value of a numeral of the grammar: its digits in base ten, with its sign.\<close>

definition numeral_value :: "string \<Rightarrow> int" where
  "numeral_value s =
     (case s of
        [] \<Rightarrow> 0
      | c # cs \<Rightarrow>
          if c = CHR ''-'' then - decimal cs
          else if c = CHR ''+'' then decimal cs
          else decimal s)"

text \<open>
  The canonical numerals: the digits are \<^verbatim>\<open>0\<close> alone or start with a non-zero
  digit, and zero has no minus sign. These are the strings \<^verbatim>\<open>printf("%d")\<close> prints,
  with an optional \<^verbatim>\<open>+\<close> in front.
\<close>

definition canonical_digits :: "string \<Rightarrow> bool" where
  "canonical_digits ds = (case ds of [] \<Rightarrow> False | d # r \<Rightarrow> d \<noteq> CHR ''0'' \<or> r = [])"

definition canonical :: "string \<Rightarrow> bool" where
  "canonical s =
     (case s of
        [] \<Rightarrow> False
      | c # cs \<Rightarrow>
          if c = CHR ''+'' then canonical_digits cs
          else if c = CHR ''-'' then canonical_digits cs \<and> cs \<noteq> ''0''
          else canonical_digits s)"

definition strip_plus :: "string \<Rightarrow> string" where
  "strip_plus s = (case s of [] \<Rightarrow> [] | c # cs \<Rightarrow> if c = CHR ''+'' then cs else s)"

text \<open>
  A token from which \<^verbatim>\<open>atoi\<close> takes at least one digit, and the part of it
  \<^verbatim>\<open>atoi\<close> takes: the sign, if any, and the longest run of digits after it.
\<close>

definition starts_numeric :: "string \<Rightarrow> bool" where
  "starts_numeric tok =
     (case tok of
        [] \<Rightarrow> False
      | c # cs \<Rightarrow>
          isdigit c \<or>
          ((c = CHR ''+'' \<or> c = CHR ''-'') \<and> (case cs of [] \<Rightarrow> False | d # _ \<Rightarrow> isdigit d)))"

definition numeric_prefix :: "string \<Rightarrow> string" where
  "numeric_prefix tok =
     (case tok of
        [] \<Rightarrow> []
      | c # cs \<Rightarrow>
          if c = CHR ''+'' \<or> c = CHR ''-'' then c # takeWhile isdigit cs
          else takeWhile isdigit tok)"

text \<open>What \<^verbatim>\<open>(int)strtol\<close> makes of an exact value.\<close>

definition int_of_value :: "int \<Rightarrow> int" where
  "int_of_value v = to_int (if v < LONG_MIN then LONG_MIN else if LONG_MAX < v then LONG_MAX else v)"


section \<open>Basic facts\<close>

lemma and_then_simps [simp]:
  "and_then (Inl f) k = Inl f"
  "and_then (Inr x) k = k x"
  by (simp_all add: and_then_def)

section \<open>The validator\<close>

lemma isdigit_iff_ascii_digit: "isdigit c = ascii_digit c"
  by (cases c) (auto simp: isdigit_def ascii_digit_def)

lemma isdigit_not_NUL: "isdigit c \<Longrightarrow> c \<noteq> NUL"
  by (auto simp: isdigit_def)

lemma digits_loop_string:
  "NUL \<notin> set s \<Longrightarrow> digits_loop (s @ NUL # rest) = Inr (list_all isdigit s)"
  by (induction s) auto

lemma digit_string_isdigit: "digit_string xs = (xs \<noteq> [] \<and> list_all isdigit xs)"
  by (simp add: digit_string_def isdigit_iff_ascii_digit [abs_def])

lemma is_number_string:
  "NUL \<notin> set s \<Longrightarrow> is_number (s @ NUL # rest) = Inr (numeral_grammar s)"
proof (cases s)
  case Nil
  then show ?thesis by (simp add: is_number_def numeral_grammar_def digit_string_def)
next
  case (Cons c cs)
  assume nz: "NUL \<notin> set s"
  have sign: "\<not> isdigit (CHR ''+'')" "\<not> isdigit (CHR ''-'')"
    by (simp_all add: isdigit_def)
  show ?thesis
  proof (cases "c = CHR ''-'' \<or> c = CHR ''+''")
    case True
    with Cons nz sign show ?thesis
      using digits_loop_string [of cs rest]
      by (cases cs) (auto simp: is_number_def numeral_grammar_def digit_string_isdigit)
  next
    case False
    with Cons nz show ?thesis
      using digits_loop_string [of s rest]
      by (auto simp: is_number_def numeral_grammar_def digit_string_isdigit)
  qed
qed

lemma digit_string_set:
  "digit_string ds = (ds \<noteq> [] \<and> set ds \<subseteq> set ''0123456789'')"
  unfolding digit_string_def list_all_iff ascii_digit_def by blast

lemma numeral_grammar_cases:
  "numeral_grammar s =
     (digit_string s \<or> (\<exists>c cs. s = c # cs \<and> (c = CHR ''+'' \<or> c = CHR ''-'') \<and> digit_string cs))"
  by (cases s) (simp_all add: numeral_grammar_def)

lemma numeral_grammar_regex:
  "numeral_grammar s =
     (\<exists>sign ds. s = sign @ ds \<and> (sign = [] \<or> sign = ''+'' \<or> sign = ''-'')
                \<and> ds \<noteq> [] \<and> set ds \<subseteq> set ''0123456789'')"
  (is "_ = ?R")
proof
  assume "numeral_grammar s"
  then consider "digit_string s"
    | c cs where "s = c # cs" "c = CHR ''+'' \<or> c = CHR ''-''" "digit_string cs"
    unfolding numeral_grammar_cases by blast
  then show ?R
  proof cases
    case 1
    then have "s = [] @ s" "s \<noteq> []" "set s \<subseteq> set ''0123456789''"
      unfolding digit_string_set by simp_all
    then show ?thesis by blast
  next
    case 2
    from 2(3) have "cs \<noteq> []" "set cs \<subseteq> set ''0123456789''"
      unfolding digit_string_set by simp_all
    moreover from 2(1) have "s = [c] @ cs" by simp
    moreover from 2(2) have "[c] = ''+'' \<or> [c] = ''-''" by simp
    ultimately show ?thesis by blast
  qed
next
  assume ?R
  then obtain sign ds where s: "s = sign @ ds"
    and sg: "sign = [] \<or> sign = ''+'' \<or> sign = ''-''"
    and ds: "ds \<noteq> []" "set ds \<subseteq> set ''0123456789''"
    by blast
  from ds have d: "digit_string ds"
    unfolding digit_string_set by simp
  from sg show "numeral_grammar s"
  proof (elim disjE)
    assume "sign = []"
    with s d show ?thesis unfolding numeral_grammar_cases by simp
  next
    assume "sign = ''+''"
    with s have "s = CHR ''+'' # ds" by simp
    with d show ?thesis unfolding numeral_grammar_cases by blast
  next
    assume "sign = ''-''"
    with s have "s = CHR ''-'' # ds" by simp
    with d show ?thesis unfolding numeral_grammar_cases by blast
  qed
qed

text \<open>
  C1. For every string \<open>s\<close> (a C string: no null byte inside, the terminator after it,
  whatever follows in the array), \<open>is_number\<close> returns 1 exactly when \<open>s\<close> matches
  \<^verbatim>\<open>[+-]?[0-9]+\<close>: an optional single sign, then at least one ASCII decimal digit
  and nothing else. So the empty string, a sign alone, and a string with any other byte
  (white space included) are rejected.
\<close>

theorem is_number_grammar:
  "NUL \<notin> set s \<Longrightarrow>
     is_number (s @ NUL # rest) = Inr (numeral_grammar s)
     \<and> numeral_grammar s =
         (\<exists>sign ds. s = sign @ ds \<and> (sign = [] \<or> sign = ''+'' \<or> sign = ''-'')
                    \<and> ds \<noteq> [] \<and> set ds \<subseteq> set ''0123456789'')"
  using is_number_string [of s rest] numeral_grammar_regex [of s] by blast

theorem is_number_grammar_witness:
  "is_number (''+42'' @ [NUL]) = Inr True
   \<and> is_number (''-7'' @ [NUL]) = Inr True
   \<and> is_number (''007'' @ [NUL]) = Inr True
   \<and> is_number ([] @ [NUL]) = Inr False
   \<and> is_number (''+'' @ [NUL]) = Inr False
   \<and> is_number (''4a2'' @ [NUL]) = Inr False
   \<and> is_number ('' 42'' @ [NUL]) = Inr False
   \<and> is_number (''42 '' @ [NUL]) = Inr False"
  using is_number_grammar [of "''+42''" "[]", THEN conjunct1]
    is_number_grammar [of "''-7''" "[]", THEN conjunct1]
    is_number_grammar [of "''007''" "[]", THEN conjunct1]
    is_number_grammar [of "[]" "[]", THEN conjunct1]
    is_number_grammar [of "''+''" "[]", THEN conjunct1]
    is_number_grammar [of "''4a2''" "[]", THEN conjunct1]
    is_number_grammar [of "'' 42''" "[]", THEN conjunct1]
    is_number_grammar [of "''42 ''" "[]", THEN conjunct1]
  by (simp add: numeral_grammar_def digit_string_def ascii_digit_def)

section \<open>The secret\<close>

text \<open>
  C6. Whatever \<^verbatim>\<open>rand()\<close> draws (a value from 0 up, as ISO C requires of it),
  \<^verbatim>\<open>rand() % 100 + 1\<close> lies in 1..100.
\<close>

theorem generate_secret_range:
  "0 \<le> draw \<Longrightarrow> 1 \<le> generate_secret draw \<and> generate_secret draw \<le> 100"
proof -
  assume nonneg: "0 \<le> draw"
  then have "draw smod 100 = draw mod 100"
    by (simp add: smod_int_alt_def sgn_if)
  moreover have "0 \<le> draw mod 100" "draw mod 100 < 100"
    by simp_all
  ultimately show ?thesis
    by (simp add: generate_secret_def)
qed

theorem generate_secret_range_witness:
  "generate_secret 2147483647 = 48
   \<and> 1 \<le> generate_secret 2147483647 \<and> generate_secret 2147483647 \<le> 100"
  using generate_secret_range [of 2147483647]
  by (simp add: generate_secret_def smod_int_alt_def)

section \<open>The comparison\<close>

text \<open>
  C7. The verdict is \<open>TooSmall\<close> exactly when the guess is below the secret,
  \<open>TooLarge\<close> exactly when it is above, \<open>Correct\<close> exactly when they are equal; so
  comparing a number with itself is \<open>Correct\<close>, and swapping the arguments exchanges
  \<open>TooSmall\<close> and \<open>TooLarge\<close> and keeps \<open>Correct\<close>.
\<close>

theorem compare_verdict:
  "(compare guess secret = TooSmall) = (guess < secret)
   \<and> (compare guess secret = TooLarge) = (guess > secret)
   \<and> (compare guess secret = Correct) = (guess = secret)
   \<and> compare x x = Correct
   \<and> compare secret guess =
       (case compare guess secret of
          TooSmall \<Rightarrow> TooLarge | TooLarge \<Rightarrow> TooSmall | Correct \<Rightarrow> Correct)"
  by (simp add: compare_def)

section \<open>\<^verbatim>\<open>atoi\<close> and \<^verbatim>\<open>printf("%d")\<close>\<close>

lemma digits_of_small: "n < 10 \<Longrightarrow> digits_of n = [digit_char n]"
  by (simp add: digits_of.simps)

lemma digits_of_large: "10 \<le> n \<Longrightarrow> digits_of n = digits_of (n div 10) @ [digit_char (n mod 10)]"
  by (subst digits_of.simps) simp

lemma digit_val_range: "isdigit c \<Longrightarrow> 0 \<le> digit_val c \<and> digit_val c \<le> 9"
  by (auto simp: isdigit_def digit_val_def)

lemma digit_char_val: "isdigit c \<Longrightarrow> digit_char (nat (digit_val c)) = c"
proof -
  assume "isdigit c"
  then have "48 \<le> (of_char c :: nat)" by (simp add: isdigit_def)
  then have "48 + nat (digit_val c) = (of_char c :: nat)"
    by (simp add: digit_val_def)
  then show ?thesis by (simp add: digit_char_def)
qed

lemma digit_val_zero: "isdigit c \<Longrightarrow> (digit_val c = 0) = (c = CHR ''0'')"
proof -
  assume d: "isdigit c"
  show ?thesis
  proof
    assume "digit_val c = 0"
    with d have "(of_char c :: nat) = of_char (CHR ''0'')"
      by (simp add: digit_val_def isdigit_def)
    then show "c = CHR ''0''" by (simp only: of_char_eq_iff)
  next
    assume "c = CHR ''0''" then show "digit_val c = 0" by (simp add: digit_val_def)
  qed
qed

lemma scan_digits_foldl:
  "list_all isdigit ds \<Longrightarrow> \<not> isdigit c \<Longrightarrow>
     scan_digits acc (ds @ c # rest) = Inr (foldl (\<lambda>a c. 10 * a + digit_val c) acc ds)"
  by (induction ds arbitrary: acc) simp_all

lemma scan_digits_decimal:
  "list_all isdigit ds \<Longrightarrow> \<not> isdigit c \<Longrightarrow> scan_digits 0 (ds @ c # rest) = Inr (decimal ds)"
  by (simp add: scan_digits_foldl decimal_def)

lemma decimal_snoc: "decimal (ds @ [d]) = 10 * decimal ds + digit_val d"
  by (simp add: decimal_def)

lemma decimal_nonneg: "list_all isdigit ds \<Longrightarrow> 0 \<le> decimal ds"
proof (induction ds rule: rev_induct)
  case Nil
  then show ?case by (simp add: decimal_def)
next
  case (snoc d ds)
  then show ?case using digit_val_range [of d] by (simp add: decimal_snoc)
qed

lemma digits_of_decimal:
  "list_all isdigit ds \<Longrightarrow> ds \<noteq> [] \<Longrightarrow> hd ds \<noteq> CHR ''0'' \<Longrightarrow>
     0 < decimal ds \<and> digits_of (nat (decimal ds)) = ds"
proof (induction ds rule: rev_induct)
  case Nil
  then show ?case by simp
next
  case (snoc d ds)
  from snoc.prems have dd: "isdigit d" and dsd: "list_all isdigit ds" by simp_all
  note r = digit_val_range [OF dd]
  show ?case
  proof (cases "ds = []")
    case True
    with snoc.prems have "d \<noteq> CHR ''0''" by simp
    with dd have "digit_val d \<noteq> 0" by (simp add: digit_val_zero)
    with r have pos: "0 < digit_val d" by simp
    have lt: "nat (digit_val d) < 10" using r by linarith
    have "digits_of (nat (digit_val d)) = [d]"
      by (simp only: digits_of_small [OF lt] digit_char_val [OF dd])
    with pos True show ?thesis by (simp add: decimal_def)
  next
    case False
    with snoc.prems have "hd ds \<noteq> CHR ''0''" by simp
    with snoc.IH dsd False have ih: "0 < decimal ds" "digits_of (nat (decimal ds)) = ds"
      by simp_all
    let ?v = "10 * decimal ds + digit_val d"
    define n where "n = nat (decimal ds)"
    define m where "m = nat (digit_val d)"
    have n: "decimal ds = int n" "0 < n" using ih(1) unfolding n_def by linarith+
    have m: "digit_val d = int m" "m < 10" using r unfolding m_def by linarith+
    have "?v = int (10 * n + m)" by (simp add: n m)
    then have v: "nat ?v = 10 * n + m" by (simp only: nat_int)
    have ge: "10 \<le> nat ?v" unfolding v using n(2) by linarith
    have dv: "nat ?v div 10 = n" unfolding v using m(2) by simp
    have md: "nat ?v mod 10 = m" unfolding v using m(2) by simp
    have "digits_of (nat ?v) = digits_of n @ [digit_char m]"
      by (simp only: digits_of_large [OF ge] dv md)
    also have "\<dots> = ds @ [d]"
      using ih(2) digit_char_val [OF dd] unfolding n_def m_def by simp
    finally have "digits_of (nat ?v) = ds @ [d]" .
    moreover have "0 < ?v" using ih(1) r by linarith
    ultimately show ?thesis by (simp add: decimal_snoc)
  qed
qed

lemma isdigit_not_space: "isdigit c \<Longrightarrow> \<not> isspace c"
  by (auto simp: isdigit_def isspace_def)

lemma not_isdigit_simps [simp]:
  "\<not> isdigit NUL" "\<not> isdigit (CHR ''+'')" "\<not> isdigit (CHR ''-'')" "\<not> isdigit NL"
  by (simp_all add: isdigit_def)

lemma not_isspace_simps [simp]:
  "\<not> isspace NUL" "\<not> isspace (CHR ''+'')" "\<not> isspace (CHR ''-'')"
  by (simp_all add: isspace_def)

lemma to_int_id: "INT_MIN \<le> v \<Longrightarrow> v \<le> INT_MAX \<Longrightarrow> to_int v = v"
  by (simp add: to_int_def INT_MIN_def INT_MAX_def)

lemma to_int_range: "INT_MIN \<le> to_int v \<and> to_int v \<le> INT_MAX"
proof -
  have "0 \<le> (v + 2147483648) mod 4294967296" "(v + 2147483648) mod 4294967296 < 4294967296"
    by simp_all
  then show ?thesis by (simp add: to_int_def INT_MIN_def INT_MAX_def)
qed

lemma int_of_value_id: "INT_MIN \<le> v \<Longrightarrow> v \<le> INT_MAX \<Longrightarrow> int_of_value v = v"
  by (simp add: int_of_value_def to_int_id) (simp add: INT_MIN_def INT_MAX_def LONG_MIN_def LONG_MAX_def)

lemma int_of_value_range: "INT_MIN \<le> int_of_value v \<and> int_of_value v \<le> INT_MAX"
  unfolding int_of_value_def by (rule to_int_range)

lemma atoi_subject_value: "atoi str = and_then (subject_value str) (\<lambda>v. Inr (int_of_value v))"
  by (cases "subject_value str") (simp_all add: atoi_def strtol_def int_of_value_def)

lemma subject_value_prefix:
  assumes "numeral_grammar p" and "tail = [] \<or> \<not> isdigit (hd tail)"
  shows "subject_value (p @ tail @ NUL # r) = Inr (numeral_value p)"
proof -
  from assms(2) obtain e rest where tl: "tail @ NUL # r = e # rest" and nd: "\<not> isdigit e"
    by (cases tail) auto
  from assms(1) consider "digit_string p"
    | c cs where "p = c # cs" "c = CHR ''+'' \<or> c = CHR ''-''" "digit_string cs"
    unfolding numeral_grammar_cases by blast
  then show ?thesis
  proof cases
    case 1
    then obtain d ds where p: "p = d # ds" and all: "list_all isdigit p"
      by (cases p) (auto simp: digit_string_isdigit)
    then have d: "isdigit d" by simp
    then have ns: "\<not> isspace d" "d \<noteq> CHR ''-''" "d \<noteq> CHR ''+''"
      using isdigit_not_space by auto
    have "scan_digits 0 (p @ e # rest) = Inr (decimal p)"
      using all nd by (rule scan_digits_decimal)
    with p ns show ?thesis
      by (simp add: subject_value_def numeral_value_def tl)
  next
    case 2
    then have all: "list_all isdigit cs" by (simp add: digit_string_isdigit)
    have "scan_digits 0 (cs @ e # rest) = Inr (decimal cs)"
      using all nd by (rule scan_digits_decimal)
    with 2(1,2) show ?thesis
      by (auto simp: subject_value_def numeral_value_def tl)
  qed
qed

lemma atoi_prefix:
  "numeral_grammar p \<Longrightarrow> tail = [] \<or> \<not> isdigit (hd tail) \<Longrightarrow>
     atoi (p @ tail @ NUL # r) = Inr (int_of_value (numeral_value p))"
  by (simp add: atoi_subject_value subject_value_prefix)

lemma atoi_numeral:
  "numeral_grammar s \<Longrightarrow> atoi (s @ NUL # rest) = Inr (int_of_value (numeral_value s))"
  using atoi_prefix [of s "[]" rest] by simp

lemma digit_char_0: "digit_char 0 = CHR ''0''"
  using digit_char_val [of "CHR ''0''"] by (simp add: isdigit_def digit_val_def)

lemma render_canonical_digits:
  assumes "digit_string ds" "canonical_digits ds"
  shows "render_int (decimal ds) = ds \<and> 0 \<le> decimal ds \<and> (decimal ds = 0) = (ds = ''0'')"
proof (cases "ds = ''0''")
  case True
  then show ?thesis
    by (simp add: render_int_def decimal_def digit_val_def digits_of_small digit_char_0)
next
  case False
  from assms obtain d r where ds: "ds = d # r" and "d \<noteq> CHR ''0'' \<or> r = []"
    by (cases ds) (auto simp: canonical_digits_def)
  with False have "hd ds \<noteq> CHR ''0''" by auto
  with assms(1) digits_of_decimal [of ds] have "0 < decimal ds" "digits_of (nat (decimal ds)) = ds"
    by (simp_all add: digit_string_isdigit)
  with False show ?thesis by (simp add: render_int_def)
qed

lemma render_canonical:
  assumes "numeral_grammar s" "canonical s"
  shows "render_int (numeral_value s) = strip_plus s"
proof -
  from assms(1) consider "digit_string s"
    | c cs where "s = c # cs" "c = CHR ''+'' \<or> c = CHR ''-''" "digit_string cs"
    unfolding numeral_grammar_cases by blast
  then show ?thesis
  proof cases
    case 1
    then obtain c cs where s: "s = c # cs" and "isdigit c"
      by (cases s) (auto simp: digit_string_isdigit)
    then have ns: "c \<noteq> CHR ''-''" "c \<noteq> CHR ''+''" by auto
    with s assms(2) have "canonical_digits s" by (simp add: canonical_def)
    with 1 render_canonical_digits [of s] have "render_int (decimal s) = s" by simp
    with s ns show ?thesis by (simp add: numeral_value_def strip_plus_def)
  next
    case 2
    show ?thesis
    proof (cases "c = CHR ''+''")
      case True
      with 2 assms(2) have "canonical_digits cs" by (simp add: canonical_def)
      with 2 render_canonical_digits [of cs] have "render_int (decimal cs) = cs" by simp
      with 2 True show ?thesis by (simp add: numeral_value_def strip_plus_def)
    next
      case False
      with 2 have c: "c = CHR ''-''" by simp
      with 2 assms(2) have "canonical_digits cs" "cs \<noteq> ''0''" by (simp_all add: canonical_def)
      with 2 render_canonical_digits [of cs]
      have "render_int (decimal cs) = cs" "0 \<le> decimal cs" "decimal cs \<noteq> 0" by simp_all
      then have "render_int (- decimal cs) = CHR ''-'' # cs"
        by (simp add: render_int_def)
      with 2 c show ?thesis by (simp add: numeral_value_def strip_plus_def)
    qed
  qed
qed

lemma digit_char_simps:
  "digit_char 0 = CHR ''0''" "digit_char 1 = CHR ''1''" "digit_char 2 = CHR ''2''"
  "digit_char 3 = CHR ''3''" "digit_char 4 = CHR ''4''" "digit_char 5 = CHR ''5''"
  "digit_char 6 = CHR ''6''" "digit_char 7 = CHR ''7''" "digit_char 8 = CHR ''8''"
  "digit_char 9 = CHR ''9''" "digit_char (Suc 0) = CHR ''1''"
  using digit_char_val [of "CHR ''0''"] digit_char_val [of "CHR ''1''"]
    digit_char_val [of "CHR ''2''"] digit_char_val [of "CHR ''3''"]
    digit_char_val [of "CHR ''4''"] digit_char_val [of "CHR ''5''"]
    digit_char_val [of "CHR ''6''"] digit_char_val [of "CHR ''7''"]
    digit_char_val [of "CHR ''8''"] digit_char_val [of "CHR ''9''"]
  by (simp_all add: isdigit_def digit_val_def)

lemmas render_defs = render_int_def digits_of_large digits_of_small digit_char_simps


text \<open>
  C5 (as amended). For every string the validator accepts that is in canonical form (its
  digits are \<^verbatim>\<open>0\<close> alone or start with a non-zero digit, and it is not
  \<^verbatim>\<open>-0\<close>) and whose value lies in the range of \<^verbatim>\<open>int\<close>, \<^verbatim>\<open>atoi\<close>
  returns that value, and printing it with \<^verbatim>\<open>%d\<close> gives the string back, without
  its leading \<^verbatim>\<open>+\<close> if it has one.
\<close>

theorem atoi_render_roundtrip:
  assumes "NUL \<notin> set s" and "is_number (s @ NUL # rest) = Inr True" and "canonical s"
    and "INT_MIN \<le> numeral_value s" and "numeral_value s \<le> INT_MAX"
  shows "atoi (s @ NUL # rest) = Inr (numeral_value s)
         \<and> render_int (numeral_value s) = strip_plus s"
proof -
  from assms(1,2) have g: "numeral_grammar s" by (simp add: is_number_string)
  show ?thesis
    using atoi_numeral [OF g, of rest] render_canonical [OF g assms(3)]
      int_of_value_id [OF assms(4,5)]
    by simp
qed

lemmas atoi_defs = atoi_def strtol_def subject_value_def to_int_def LONG_MIN_def LONG_MAX_def
  isspace_def isdigit_def digit_val_def

theorem atoi_render_roundtrip_witness:
  "atoi (''+42'' @ [NUL]) = Inr 42 \<and> render_int 42 = ''42''
   \<and> atoi (''-2147483648'' @ [NUL]) = Inr (- 2147483648)
   \<and> render_int (- 2147483648) = ''-2147483648''"
  using atoi_render_roundtrip [of "''+42''" "[]"] atoi_render_roundtrip [of "''-2147483648''" "[]"]
  by (simp add: is_number_def isdigit_def canonical_def canonical_digits_def strip_plus_def
      numeral_value_def decimal_def digit_val_def INT_MIN_def INT_MAX_def)

text \<open>
  The round trip as first stated, for every accepted string, fails: \<^verbatim>\<open>007\<close> and
  \<^verbatim>\<open>-0\<close> are accepted and come back as \<^verbatim>\<open>7\<close> and \<^verbatim>\<open>0\<close>, and
  \<^verbatim>\<open>99999999999\<close> is accepted and comes back as \<^verbatim>\<open>1215752191\<close>.
\<close>

theorem atoi_render_roundtrip_counterexample:
  "is_number (''007'' @ [NUL]) = Inr True
   \<and> atoi (''007'' @ [NUL]) = Inr 7
   \<and> render_int 7 \<noteq> strip_plus ''007''
   \<and> is_number (''-0'' @ [NUL]) = Inr True
   \<and> atoi (''-0'' @ [NUL]) = Inr 0
   \<and> render_int 0 \<noteq> strip_plus ''-0''
   \<and> is_number (''99999999999'' @ [NUL]) = Inr True
   \<and> atoi (''99999999999'' @ [NUL]) = Inr 1215752191
   \<and> render_int 1215752191 \<noteq> strip_plus ''99999999999''"
proof -
  have "is_number (''007'' @ [NUL]) = Inr True" "is_number (''-0'' @ [NUL]) = Inr True"
    "is_number (''99999999999'' @ [NUL]) = Inr True"
    by (simp_all add: is_number_def isdigit_def)
  moreover have "atoi (''007'' @ [NUL]) = Inr 7" "atoi (''-0'' @ [NUL]) = Inr 0"
    "atoi (''99999999999'' @ [NUL]) = Inr 1215752191"
    by (simp_all add: atoi_defs)
  moreover have "render_int 7 \<noteq> strip_plus ''007''" "render_int 0 \<noteq> strip_plus ''-0''"
    "render_int 1215752191 \<noteq> strip_plus ''99999999999''"
    by (simp_all add: render_defs strip_plus_def)
  ultimately show ?thesis by blast
qed

section \<open>Array updates, \<^verbatim>\<open>scanf\<close>, and the vulnerable program\<close>

lemma store_ok: "i < length buf \<Longrightarrow> store buf i c = Inr (buf[i := c])"
  by (simp add: store_def)

lemma take_Suc_update: "i < length buf \<Longrightarrow> take (Suc i) (buf[i := c]) = take i buf @ [c]"
  by (simp add: take_Suc_conv_app_nth)

lemma scan_token_token:
  "\<forall>c\<in>set tok. \<not> isspace c \<Longrightarrow> rest = [] \<or> isspace (hd rest) \<Longrightarrow>
   i + length tok \<le> length buf \<Longrightarrow>
     scan_token (tok @ rest) i buf =
       Inr (take i buf @ tok @ drop (i + length tok) buf, i + length tok, rest)"
proof (induction tok arbitrary: i buf)
  case Nil
  then show ?case by (cases rest) auto
next
  case (Cons c cs)
  from Cons.prems have i: "i < length buf" and ns: "\<not> isspace c" by simp_all
  from Cons.prems have len: "Suc i + length cs \<le> length (buf[i := c])" by simp
  have "scan_token ((c # cs) @ rest) i buf = scan_token (cs @ rest) (Suc i) (buf[i := c])"
    using i ns by (simp add: store_ok)
  also have "\<dots> = Inr (take (Suc i) (buf[i := c]) @ cs @ drop (Suc i + length cs) (buf[i := c]),
                       Suc i + length cs, rest)"
    using Cons.IH [OF _ Cons.prems(2) len] Cons.prems(1) by simp
  also have "take (Suc i) (buf[i := c]) = take i buf @ [c]"
    using i by (rule take_Suc_update)
  also have "drop (Suc i + length cs) (buf[i := c]) = drop (Suc i + length cs) buf"
    by simp
  finally show ?case by simp
qed

lemma scanf_s_token:
  assumes ws: "\<forall>c\<in>set ws. isspace c"
    and tok: "tok \<noteq> []" "\<forall>c\<in>set tok. \<not> isspace c"
    and rest: "rest = [] \<or> isspace (hd rest)"
    and len: "length tok < length buf"
  shows "scanf_s buf (ws @ tok @ rest) = Inr (True, tok @ NUL # drop (Suc (length tok)) buf, rest)"
proof -
  from tok have hd: "\<not> isspace (hd (tok @ rest))" by (cases tok) auto
  from tok have ne: "tok @ rest \<noteq> []" by simp
  have dw: "dropWhile isspace (ws @ tok @ rest) = tok @ rest"
    using ws hd ne by (simp add: dropWhile_append2) (metis dropWhile_eq_self_iff list.set_sel(1))
  have st: "scan_token (tok @ rest) 0 buf = Inr (tok @ drop (length tok) buf, length tok, rest)"
    using scan_token_token [OF tok(2) rest, of 0 buf] len by simp
  have dr: "drop (length tok) buf = buf ! length tok # drop (Suc (length tok)) buf"
    using len by (simp add: Cons_nth_drop_Suc)
  have "store (tok @ drop (length tok) buf) (length tok) NUL
          = Inr (tok @ NUL # drop (Suc (length tok)) buf)"
    unfolding dr by (simp add: store_def)
  with dw st ne show ?thesis
    by (simp add: scanf_s_def Let_def)
qed

lemma atoi_non_numeric:
  assumes "tok \<noteq> []" "\<not> isspace (hd tok)" "\<not> starts_numeric tok"
  shows "atoi (tok @ NUL # r) = Inr 0"
proof -
  from assms obtain c cs where tok: "tok = c # cs" and ns: "\<not> isspace c"
    by (cases tok) auto
  have z: "int_of_value 0 = 0"
    by (rule int_of_value_id) (simp_all add: INT_MIN_def INT_MAX_def)
  have "subject_value (tok @ NUL # r) = Inr 0"
  proof (cases "c = CHR ''-'' \<or> c = CHR ''+''")
    case True
    with assms(3) tok have "scan_digits 0 (cs @ NUL # r) = Inr 0"
      by (cases cs) (auto simp: starts_numeric_def)
    with True tok ns show ?thesis
      by (auto simp: subject_value_def)
  next
    case False
    with assms(3) tok have "\<not> isdigit c" by (simp add: starts_numeric_def)
    with False tok ns show ?thesis
      by (simp add: subject_value_def)
  qed
  then show ?thesis by (simp add: atoi_subject_value z)
qed

lemma digit_string_takeWhile: "isdigit d \<Longrightarrow> digit_string (takeWhile isdigit (d # ds))"
  by (auto simp: digit_string_isdigit list_all_iff dest: set_takeWhileD)

lemma dropWhile_isdigit_stop:
  "dropWhile isdigit xs = [] \<or> \<not> isdigit (hd (dropWhile isdigit xs))"
  using hd_dropWhile [of isdigit xs] by blast

lemma numeric_prefix_split:
  assumes "starts_numeric tok"
  shows "numeral_grammar (numeric_prefix tok)
         \<and> (\<exists>tail. tok = numeric_prefix tok @ tail \<and> (tail = [] \<or> \<not> isdigit (hd tail)))"
proof -
  from assms obtain c cs where tok: "tok = c # cs" by (cases tok) (auto simp: starts_numeric_def)
  show ?thesis
  proof (cases "c = CHR ''+'' \<or> c = CHR ''-''")
    case True
    with assms tok obtain d ds where cs: "cs = d # ds" and d: "isdigit d"
      by (cases cs) (auto simp: starts_numeric_def)
    from True tok have p: "numeric_prefix tok = c # takeWhile isdigit cs"
      by (simp add: numeric_prefix_def)
    have "digit_string (takeWhile isdigit cs)" unfolding cs using d by (rule digit_string_takeWhile)
    with True have g: "numeral_grammar (c # takeWhile isdigit cs)"
      unfolding numeral_grammar_cases by blast
    have "tok = (c # takeWhile isdigit cs) @ dropWhile isdigit cs" using tok by simp
    with g p dropWhile_isdigit_stop [of cs] show ?thesis by metis
  next
    case False
    with assms tok have d: "isdigit c" by (simp add: starts_numeric_def)
    from False tok have p: "numeric_prefix tok = takeWhile isdigit tok"
      by (simp add: numeric_prefix_def)
    have "digit_string (takeWhile isdigit tok)" unfolding tok using d by (rule digit_string_takeWhile)
    then have g: "numeral_grammar (takeWhile isdigit tok)"
      unfolding numeral_grammar_cases by blast
    have "tok = takeWhile isdigit tok @ dropWhile isdigit tok" by simp
    with g p dropWhile_isdigit_stop [of tok] show ?thesis by metis
  qed
qed

lemma atoi_numeric:
  assumes "starts_numeric tok"
  shows "atoi (tok @ NUL # r) = Inr (int_of_value (numeral_value (numeric_prefix tok)))"
proof -
  from numeric_prefix_split [OF assms] obtain tail where
    g: "numeral_grammar (numeric_prefix tok)" and
    t: "tok = numeric_prefix tok @ tail" and s: "tail = [] \<or> \<not> isdigit (hd tail)"
    by blast
  from atoi_prefix [OF g s, of r] have
    "atoi ((numeric_prefix tok @ tail) @ NUL # r) = Inr (int_of_value (numeral_value (numeric_prefix tok)))"
    by simp
  with t show ?thesis by simp
qed

lemma stderr_of_append: "stderr_of (t @ u) = stderr_of t @ stderr_of u"
  by (induction t rule: stderr_of.induct) simp_all


lemma stderr_of_report: "stderr_of (report t g s) = stderr_of t"
  by (simp add: report_def printf_def stderr_of_append)


lemma render_int_0: "render_int 0 = ''0''" by code_simp
lemma render_int_50: "render_int 50 = ''50''" by code_simp
lemma render_int_12: "render_int 12 = ''12''" by code_simp
lemma generate_secret_49: "generate_secret 49 = 50" by code_simp

text \<open>
  C10 (as amended). In \<^verbatim>\<open>vuln.c\<close> the token \<^verbatim>\<open>scanf("%s")\<close> stores (here one
  that fits the 32-byte array) goes to \<^verbatim>\<open>atoi\<close> as it is, and nothing is ever
  written to standard error. The guess is 0, compared and printed like any other guess,
  for every token from which \<^verbatim>\<open>atoi\<close> takes no digit: one that does not start
  with a digit, after an optional sign. For every other token the guess is the value of
  its leading numeral (the sign, if any, and the longest run of digits) as
  \<^verbatim>\<open>(int)strtol\<close> converts it, which is that value itself when it fits
  \<^verbatim>\<open>int\<close>.
\<close>

theorem vuln_no_validation:
  assumes "length init = 32"
    and "\<forall>c\<in>set ws. isspace c"
    and "tok \<noteq> []" and "\<forall>c\<in>set tok. \<not> isspace c" and "length tok < 32"
    and "rest = [] \<or> isspace (hd rest)"
  shows "main_vuln (ws @ tok @ rest) init draw =
           and_then (atoi (tok @ NUL # drop (Suc (length tok)) init)) (\<lambda>guess.
             Inr \<lparr>out_trace = report (printf [] prompt) guess (generate_secret draw),
                  out_guess = guess, out_secret = generate_secret draw\<rparr>)
         \<and> (\<not> starts_numeric tok \<longrightarrow>
              main_vuln (ws @ tok @ rest) init draw =
                Inr \<lparr>out_trace = report (printf [] prompt) 0 (generate_secret draw),
                     out_guess = 0, out_secret = generate_secret draw\<rparr>)
         \<and> (starts_numeric tok \<longrightarrow>
              main_vuln (ws @ tok @ rest) init draw =
                Inr \<lparr>out_trace = report (printf [] prompt)
                                   (int_of_value (numeral_value (numeric_prefix tok)))
                                   (generate_secret draw),
                     out_guess = int_of_value (numeral_value (numeric_prefix tok)),
                     out_secret = generate_secret draw\<rparr>)
         \<and> (INT_MIN \<le> numeral_value (numeric_prefix tok)
              \<and> numeral_value (numeric_prefix tok) \<le> INT_MAX \<longrightarrow>
              int_of_value (numeral_value (numeric_prefix tok)) = numeral_value (numeric_prefix tok))
         \<and> stderr_of (report (printf [] prompt) guess (generate_secret draw)) = []"
proof -
  have sc: "scanf_s init (ws @ tok @ rest) = Inr (True, tok @ NUL # drop (Suc (length tok)) init, rest)"
    using assms by (intro scanf_s_token) simp_all
  then have main: "main_vuln (ws @ tok @ rest) init draw =
           and_then (atoi (tok @ NUL # drop (Suc (length tok)) init)) (\<lambda>guess.
             Inr \<lparr>out_trace = report (printf [] prompt) guess (generate_secret draw),
                  out_guess = guess, out_secret = generate_secret draw\<rparr>)"
    by (simp add: main_vuln_def Let_def)
  from assms(3,4) have "\<not> isspace (hd tok)" by (cases tok) auto
  with assms(3) have zero: "\<not> starts_numeric tok \<Longrightarrow> atoi (tok @ NUL # drop (Suc (length tok)) init) = Inr 0"
    by (rule atoi_non_numeric)
  have num: "starts_numeric tok \<Longrightarrow>
      atoi (tok @ NUL # drop (Suc (length tok)) init)
        = Inr (int_of_value (numeral_value (numeric_prefix tok)))"
    by (rule atoi_numeric)
  from main zero num show ?thesis
    by (simp add: stderr_of_report printf_def int_of_value_id)
qed

theorem vuln_no_validation_witness:
  "main_vuln (''abc'' @ [NL]) (replicate 32 NUL) 49 =
     Inr \<lparr>out_trace = [Out ''pls guess a number: '', Out (''too small'' @ [NL]),
                        Out (''you guessed : 0'' @ [NL]), Out (''secret num. : 50'' @ [NL])],
          out_guess = 0, out_secret = 50\<rparr>
   \<and> main_vuln (''-12abc'' @ [NL]) (replicate 32 NUL) 49 =
     Inr \<lparr>out_trace = [Out ''pls guess a number: '', Out (''too small'' @ [NL]),
                        Out (''you guessed : -12'' @ [NL]), Out (''secret num. : 50'' @ [NL])],
          out_guess = - 12, out_secret = 50\<rparr>"
proof -
  have p: "numeric_prefix ''-12abc'' = ''-12''"
    by (simp add: numeric_prefix_def isdigit_def)
  have v: "numeral_value ''-12'' = - 12"
    by (simp add: numeral_value_def decimal_def digit_val_def)
  have i: "int_of_value (- 12) = - 12"
    by (rule int_of_value_id) (simp_all add: INT_MIN_def INT_MAX_def)
  have r: "render_int (- 12) = ''-12''" by (simp add: render_defs)
  have "main_vuln (''abc'' @ [NL]) (replicate 32 NUL) 49 =
     Inr \<lparr>out_trace = [Out ''pls guess a number: '', Out (''too small'' @ [NL]),
                        Out (''you guessed : 0'' @ [NL]), Out (''secret num. : 50'' @ [NL])],
          out_guess = 0, out_secret = 50\<rparr>"
    using vuln_no_validation [of "replicate 32 NUL" "[]" "''abc''" "[NL]" 49 0,
        THEN conjunct2, THEN conjunct1]
    by (simp add: starts_numeric_def isspace_def isdigit_def report_def printf_def prompt_def
        compare_def verdict_msg_def render_int_0 render_int_50 generate_secret_49)
  moreover have "main_vuln (''-12abc'' @ [NL]) (replicate 32 NUL) 49 =
     Inr \<lparr>out_trace = [Out ''pls guess a number: '', Out (''too small'' @ [NL]),
                        Out (''you guessed : -12'' @ [NL]), Out (''secret num. : 50'' @ [NL])],
          out_guess = - 12, out_secret = 50\<rparr>"
    using vuln_no_validation [of "replicate 32 NUL" "[]" "''-12abc''" "[NL]" 49 0,
        THEN conjunct2, THEN conjunct2, THEN conjunct1]
    by (simp add: starts_numeric_def isspace_def isdigit_def p v i r report_def printf_def
        prompt_def compare_def verdict_msg_def render_int_50 generate_secret_49)
  ultimately show ?thesis by (rule conjI)
qed

text \<open>
  \<^verbatim>\<open>12abc\<close> is not a numeral of the grammar, and the guess is 12, not 0.
\<close>

theorem vuln_no_validation_counterexample:
  "numeral_grammar ''12abc'' = False
   \<and> main_vuln ''12abc'' (replicate 32 NUL) 49 =
     Inr \<lparr>out_trace = [Out ''pls guess a number: '', Out (''too small'' @ [NL]),
                        Out (''you guessed : 12'' @ [NL]), Out (''secret num. : 50'' @ [NL])],
          out_guess = 12, out_secret = 50\<rparr>"
proof -
  have "numeral_grammar ''12abc'' = False"
    by (simp add: numeral_grammar_def digit_string_def ascii_digit_def)
  moreover have "atoi (''12abc'' @ NUL # replicate 26 NUL) = Inr 12"
    by (simp add: atoi_defs)
  moreover have "main_vuln ([] @ ''12abc'' @ []) (replicate 32 NUL) 49 =
           and_then (atoi (''12abc'' @ NUL # drop (Suc (length ''12abc'')) (replicate 32 NUL))) (\<lambda>guess.
             Inr \<lparr>out_trace = report (printf [] prompt) guess (generate_secret 49),
                  out_guess = guess, out_secret = generate_secret 49\<rparr>)"
    using scanf_s_token [of "[]" "''12abc''" "[]" "replicate 32 NUL"]
    by (simp add: main_vuln_def Let_def isspace_def)
  ultimately show ?thesis
    by (simp add: report_def printf_def prompt_def compare_def verdict_msg_def
        render_int_12 render_int_50 generate_secret_49)
qed

section \<open>\<^verbatim>\<open>fgets\<close> and the safe program, step by step\<close>

lemma read_line_length: "length (read_line room inp) \<le> room"
  by (induction room inp rule: read_line.induct) simp_all

lemma read_line_prefix: "read_line room inp @ drop (length (read_line room inp)) inp = inp"
  by (induction room inp rule: read_line.induct) simp_all

lemma read_line_empty: "(read_line room inp = []) = (room = 0 \<or> inp = [])"
  by (induction room inp rule: read_line.induct) simp_all

lemma read_line_take: "read_line room (take room inp) = read_line room inp"
  by (induction room inp rule: read_line.induct) simp_all

lemma read_line_no_newline:
  "NL \<notin> set (take room inp) \<Longrightarrow> read_line room inp = take room inp"
  by (induction room inp rule: read_line.induct) auto

lemma fgets_loop_read_line:
  "i + room \<le> length buf \<Longrightarrow>
     fgets_loop room inp i buf =
       Inr (take i buf @ read_line room inp @ drop (i + length (read_line room inp)) buf,
            i + length (read_line room inp),
            drop (length (read_line room inp)) inp)"
proof (induction room inp i buf rule: fgets_loop.induct)
  case (1 inp i buf)
  then show ?case by simp
next
  case (2 room i buf)
  then show ?case by simp
next
  case (3 room c cs i buf)
  from "3.prems" have i: "i < length buf" by simp
  have tk: "take (Suc i) (buf[i := c]) = take i buf @ [c]"
    using i by (rule take_Suc_update)
  show ?case
  proof (cases "c = NL")
    case True
    have "buf[i := c] = take i buf @ c # drop (Suc i) buf"
      using i by (rule upd_conv_take_nth_drop)
    with True i show ?thesis by (simp add: store_ok)
  next
    case False
    from "3.prems" have "Suc i + room \<le> length (buf[i := c])" by simp
    with "3.IH" [of "buf[i := c]"] i False tk
    show ?thesis by (simp add: store_ok)
  qed
qed

lemma fgets_read_line:
  assumes "n \<le> length buf"
  shows "fgets buf n inp =
     (if read_line (n - 1) inp = [] then Inr (False, buf, inp)
      else Inr (True,
                read_line (n - 1) inp @ NUL # drop (Suc (length (read_line (n - 1) inp))) buf,
                drop (length (read_line (n - 1) inp)) inp))"
proof -
  let ?l = "read_line (n - 1) inp"
  have loop: "fgets_loop (n - 1) inp 0 buf = Inr (?l @ drop (length ?l) buf, length ?l, drop (length ?l) inp)"
    using fgets_loop_read_line [of 0 "n - 1" buf inp] assms by simp
  show ?thesis
  proof (cases "?l = []")
    case True
    then have "drop (length ?l) inp = inp" by simp
    with True loop show ?thesis by (simp add: fgets_def)
  next
    case False
    then have "0 < n - 1" using read_line_empty [of "n - 1" inp] by auto
    with read_line_length [of "n - 1" inp] assms have len: "length ?l < length buf" by simp
    have dr: "drop (length ?l) buf = buf ! length ?l # drop (Suc (length ?l)) buf"
      using len by (simp add: Cons_nth_drop_Suc)
    have "store (?l @ drop (length ?l) buf) (length ?l) NUL = Inr (?l @ NUL # drop (Suc (length ?l)) buf)"
      unfolding dr by (simp add: store_def)
    with False loop show ?thesis by (simp add: fgets_def)
  qed
qed

lemma fgets_100:
  "length init = 100 \<Longrightarrow>
     fgets init 100 inp =
       Inr (read_line 99 inp \<noteq> [], after_fgets init inp, drop (length (read_line 99 inp)) inp)"
  using fgets_read_line [of 100 init inp] by (simp add: after_fgets_def Let_def)

lemma length_after_fgets: "length init = 100 \<Longrightarrow> length (after_fgets init inp) = 100"
  using read_line_length [of 99 inp] by (simp add: after_fgets_def Let_def)

lemma strcspn_line_text:
  "\<exists>c\<in>set buf. c = NUL \<or> c = NL \<Longrightarrow> strcspn buf [NL] = Inr (length (line_text buf))"
proof (induction buf)
  case Nil
  then show ?case by simp
next
  case (Cons a buf)
  show ?case
  proof (cases "a = NUL \<or> a = NL")
    case True
    then show ?thesis by (auto simp: line_text_def)
  next
    case False
    with Cons.prems have "\<exists>c\<in>set buf. c = NUL \<or> c = NL" by auto
    from Cons.IH [OF this] False show ?thesis by (simp add: line_text_def)
  qed
qed

lemma strcspn_unterminated:
  "\<forall>c\<in>set buf. c \<noteq> NUL \<and> c \<noteq> NL \<Longrightarrow> strcspn buf [NL] = Inl OutOfBoundsRead"
  by (induction buf) auto

lemma line_text_split:
  assumes "\<exists>c\<in>set buf. c = NUL \<or> c = NL"
  shows "\<exists>d. (d = NUL \<or> d = NL) \<and> buf = line_text buf @ d # drop (Suc (length (line_text buf))) buf"
proof -
  let ?P = "\<lambda>c. c \<noteq> NUL \<and> c \<noteq> NL"
  from assms have "dropWhile ?P buf \<noteq> []" by (auto simp: dropWhile_eq_Nil_conv)
  then obtain d r where dr: "dropWhile ?P buf = d # r" by (cases "dropWhile ?P buf") auto
  then have d: "\<not> ?P d" using hd_dropWhile [of ?P buf] by (metis list.sel(1) list.distinct(1))
  have buf: "buf = takeWhile ?P buf @ d # r" using takeWhile_dropWhile_id [of ?P buf] dr by simp
  then have "drop (Suc (length (takeWhile ?P buf))) buf = r"
    by (metis append_eq_conv_conj drop_Suc_Cons Cons_eq_appendI drop_Suc list.sel(3) tl_drop)
  with buf d show ?thesis unfolding line_text_def by auto
qed

lemma strip_newline:
  assumes "\<exists>c\<in>set buf. c = NUL \<or> c = NL"
  shows "and_then (strcspn buf [NL]) (\<lambda>j. store buf j NUL) =
           Inr (line_text buf @ NUL # drop (Suc (length (line_text buf))) buf)"
proof -
  from line_text_split [OF assms] obtain d where
    buf: "buf = line_text buf @ d # drop (Suc (length (line_text buf))) buf" by blast
  let ?t = "line_text buf" and ?r = "drop (Suc (length (line_text buf))) buf"
  have "store (?t @ d # ?r) (length ?t) NUL = Inr (?t @ NUL # ?r)"
    by (simp add: store_def)
  with buf have "store buf (length ?t) NUL = Inr (?t @ NUL # ?r)" by simp
  with strcspn_line_text [OF assms] show ?thesis by simp
qed

lemma and_then_assoc: "and_then (and_then m f) g = and_then m (\<lambda>x. and_then (f x) g)"
  by (cases m) simp_all

lemma terminated_iff: "terminated buf = (\<exists>c\<in>set buf. c = NUL \<or> c = NL)"
  by (auto simp: terminated_def)

lemma strip_newline_after_strip:
  "terminated buf \<Longrightarrow> and_then (strcspn buf [NL]) (\<lambda>j. store buf j NUL) = Inr (after_strip buf)"
  using strip_newline [of buf] by (simp add: terminated_iff after_strip_def)

lemma strip_newline_unterminated:
  "\<not> terminated buf \<Longrightarrow> strcspn buf [NL] = Inl OutOfBoundsRead"
  using strcspn_unterminated [of buf] by (auto simp: terminated_def)

lemma length_after_strip: "terminated buf \<Longrightarrow> length (after_strip buf) = length buf"
proof -
  assume "terminated buf"
  then obtain d where "buf = line_text buf @ d # drop (Suc (length (line_text buf))) buf"
    using line_text_split [of buf] by (auto simp: terminated_iff)
  then have "length buf = length (line_text buf @ d # drop (Suc (length (line_text buf))) buf)"
    by simp
  then show ?thesis by (simp add: after_strip_def)
qed

lemma NUL_notin_line_text: "NUL \<notin> set (line_text buf)"
  unfolding line_text_def by (auto dest: set_takeWhileD)

lemma after_fgets_terminated: "inp \<noteq> [] \<Longrightarrow> terminated (after_fgets init inp)"
  by (simp add: after_fgets_def Let_def read_line_empty terminated_def)

lemma after_fgets_eof: "after_fgets init [] = init"
  by (simp add: after_fgets_def Let_def read_line_empty)

lemma after_fgets_take: "after_fgets init (take 99 inp) = after_fgets init inp"
  by (simp add: after_fgets_def read_line_take)

lemma acquire_line_eq:
  assumes "length init = 100"
  shows "acquire_line init inp =
           (if terminated (after_fgets init inp)
            then Inr (first_events inp, after_strip (after_fgets init inp))
            else Inl OutOfBoundsRead)"
proof -
  let ?B = "after_fgets init inp"
  let ?t = "first_events inp"
  have "acquire_line init inp =
          and_then (and_then (strcspn ?B [NL]) (\<lambda>j. store ?B j NUL)) (\<lambda>buf'. Inr (?t, buf'))"
    unfolding and_then_assoc
    by (simp add: acquire_line_def fgets_100 [OF assms] Let_def read_line_empty first_events_def
        printf_def eprintf_def)
  then show ?thesis
    by (simp add: strip_newline_after_strip strip_newline_unterminated)
qed

lemma fallback_eq: "4 \<le> length buf \<Longrightarrow> fallback buf = Inr (''1337'' @ drop 4 buf)"
proof -
  assume "4 \<le> length buf"
  then obtain a b c d r where "buf = a # b # c # d # r"
    by (cases buf; cases "tl buf"; cases "tl (tl buf)"; cases "tl (tl (tl buf))") auto
  then show ?thesis by (simp add: fallback_def store_def)
qed

lemma is_number_after_strip: "is_number (after_strip buf) = Inr (numeral_grammar (line_text buf))"
  unfolding after_strip_def by (rule is_number_string) (rule NUL_notin_line_text)

lemma check_input_eq:
  assumes "4 \<le> length (after_strip buf)"
  shows "check_input t (after_strip buf) =
           (if numeral_grammar (line_text buf) then Inr (t, after_strip buf)
            else Inr (t @ [Err invalid_msg], ''1337'' @ drop 4 (after_strip buf)))"
  by (simp add: check_input_def is_number_after_strip fallback_eq [OF assms] eprintf_def)

lemma main_safe_eq:
  assumes "length init = 100" and "terminated (after_fgets init inp)"
  shows "main_safe inp init draw =
           and_then (atoi (atoi_operand (after_fgets init inp))) (\<lambda>guess.
             Inr \<lparr>out_trace =
                    report (first_events inp @
                            (if numeral_grammar (line_text (after_fgets init inp)) then []
                             else [Err invalid_msg]))
                      guess (generate_secret draw),
                  out_guess = guess, out_secret = generate_secret draw\<rparr>)"
proof -
  let ?B = "after_fgets init inp"
  have len: "4 \<le> length (after_strip ?B)"
    using assms by (simp add: length_after_strip length_after_fgets)
  show ?thesis
    using assms(2)
    by (simp add: main_safe_def acquire_line_eq [OF assms(1)] check_input_eq [OF len]
        atoi_operand_def Let_def)
qed

lemma main_safe_unterminated:
  assumes "length init = 100" and "\<not> terminated (after_fgets init inp)"
  shows "main_safe inp init draw = Inl OutOfBoundsRead"
  using assms(2) by (simp add: main_safe_def acquire_line_eq [OF assms(1)] Let_def)

lemma main_safe_take:
  assumes "length init = 100"
  shows "main_safe (take 99 inp) init draw = main_safe inp init draw"
proof -
  have "(take 99 inp = []) = (inp = [])" by auto
  then have "acquire_line init (take 99 inp) = acquire_line init inp"
    by (simp add: acquire_line_eq [OF assms] after_fgets_take first_events_def)
  then show ?thesis by (simp add: main_safe_def)
qed

section \<open>When the safe program reads past its array\<close>

lemma scan_digits_stops:
  "\<exists>c\<in>set s. \<not> isdigit c \<Longrightarrow> \<exists>v. scan_digits acc s = Inr v"
proof (induction s arbitrary: acc)
  case Nil
  then show ?case by simp
next
  case (Cons c cs)
  then show ?case by (cases "isdigit c") auto
qed

lemma scan_digits_runs_off:
  "\<forall>c\<in>set s. isdigit c \<Longrightarrow> scan_digits acc s = Inl OutOfBoundsRead"
  by (induction s arbitrary: acc) simp_all

lemma scan_digits_fault:
  assumes "scan_digits acc s = Inl f"
  shows "f = OutOfBoundsRead \<and> (\<forall>c\<in>set s. isdigit c)"
proof (cases "\<forall>c\<in>set s. isdigit c")
  case True
  with assms scan_digits_runs_off [of s acc] show ?thesis by simp
next
  case False
  then have "\<exists>v. scan_digits acc s = Inr v" by (intro scan_digits_stops) blast
  with assms show ?thesis by auto
qed

lemma scan_digits_stop_hd:
  "s \<noteq> [] \<Longrightarrow> \<not> isdigit (hd s) \<Longrightarrow> scan_digits acc s = Inr acc"
  by (cases s) simp_all

lemma atoi_fallback:
  "atoi (CHR ''1'' # CHR ''3'' # CHR ''3'' # CHR ''7'' # xs)
     = and_then (scan_digits 1337 xs) (\<lambda>v. Inr (int_of_value v))"
proof -
  have d: "isdigit (CHR ''1'')" "isdigit (CHR ''3'')" "isdigit (CHR ''7'')"
    by (simp_all add: isdigit_def)
  have v: "digit_val (CHR ''1'') = 1" "digit_val (CHR ''3'') = 3" "digit_val (CHR ''7'') = 7"
    by (simp_all add: digit_val_def)
  have s: "\<not> isspace (CHR ''1'')" by (simp add: isspace_def)
  show ?thesis
    by (simp add: atoi_subject_value subject_value_def d v s)
qed

lemma length_takeWhile_le_index:
  "k < length xs \<Longrightarrow> \<not> P (xs ! k) \<Longrightarrow> length (takeWhile P xs) \<le> k"
proof (induction xs arbitrary: k)
  case Nil
  then show ?case by simp
next
  case (Cons x xs)
  then show ?case by (cases k) auto
qed

lemma after_strip_update:
  assumes "terminated buf"
  shows "after_strip buf = buf[length (line_text buf) := NUL]"
proof -
  from assms obtain d where
    buf: "buf = line_text buf @ d # drop (Suc (length (line_text buf))) buf"
    using line_text_split [of buf] by (auto simp: terminated_iff)
  have "(line_text buf @ d # drop (Suc (length (line_text buf))) buf)[length (line_text buf) := NUL]
          = after_strip buf"
    by (simp add: after_strip_def)
  with buf show ?thesis by simp
qed

lemma numeral_grammar_hd:
  "numeral_grammar s \<Longrightarrow> s \<noteq> [] \<and> \<not> isspace (hd s)"
  by (cases s) (auto simp: numeral_grammar_def digit_string_isdigit dest: isdigit_not_space)

lemma atoi_after_strip:
  "numeral_grammar (line_text buf) \<Longrightarrow>
     atoi (after_strip buf) = Inr (int_of_value (numeral_value (line_text buf)))"
  unfolding after_strip_def by (rule atoi_numeral)

lemma main_safe_valid:
  assumes "length init = 100" and "terminated (after_fgets init inp)"
    and "numeral_grammar (line_text (after_fgets init inp))"
  shows "main_safe inp init draw =
           Inr \<lparr>out_trace = report (first_events inp)
                              (int_of_value (numeral_value (line_text (after_fgets init inp))))
                              (generate_secret draw),
                out_guess = int_of_value (numeral_value (line_text (after_fgets init inp))),
                out_secret = generate_secret draw\<rparr>"
  using assms(3)
  by (simp add: main_safe_eq [OF assms(1,2)] atoi_operand_def atoi_after_strip)

lemma main_safe_invalid:
  assumes "length init = 100" and "terminated (after_fgets init inp)"
    and "\<not> numeral_grammar (line_text (after_fgets init inp))"
  shows "main_safe inp init draw =
           and_then (scan_digits 1337 (drop 4 (after_strip (after_fgets init inp)))) (\<lambda>v.
             Inr \<lparr>out_trace = report (first_events inp @ [Err invalid_msg])
                                (int_of_value v) (generate_secret draw),
                  out_guess = int_of_value v, out_secret = generate_secret draw\<rparr>)"
proof -
  let ?xs = "drop 4 (after_strip (after_fgets init inp))"
  have "atoi_operand (after_fgets init inp) = ''1337'' @ ?xs"
    using assms(3) by (simp add: atoi_operand_def)
  then show ?thesis
    using assms(3)
    by (cases "scan_digits 1337 ?xs")
      (simp_all add: main_safe_eq [OF assms(1,2)] atoi_fallback)
qed

lemma length_line_text_less: "terminated buf \<Longrightarrow> length (line_text buf) < length buf"
proof -
  assume "terminated buf"
  then obtain d where "buf = line_text buf @ d # drop (Suc (length (line_text buf))) buf"
    using line_text_split [of buf] by (auto simp: terminated_iff)
  then have "length buf = length (line_text buf @ d # drop (Suc (length (line_text buf))) buf)"
    by simp
  then show ?thesis by simp
qed

lemma nth_in_drop: "k \<le> i \<Longrightarrow> i < length xs \<Longrightarrow> xs ! i \<in> set (drop k xs)"
proof -
  assume a: "k \<le> i" "i < length xs"
  then have "drop k xs ! (i - k) = xs ! i" "i - k < length (drop k xs)" by simp_all
  then show ?thesis by (metis nth_mem)
qed

lemma digits_after_strip:
  assumes "terminated buf" and "\<forall>c\<in>set (drop 4 (after_strip buf)). isdigit c"
  shows "length (line_text buf) < 4 \<and> drop 4 (after_strip buf) = drop 4 buf"
proof -
  let ?n = "length (line_text buf)"
  have n: "?n < length buf" using assms(1) by (rule length_line_text_less)
  have S: "after_strip buf = buf[?n := NUL]" using assms(1) by (rule after_strip_update)
  have "?n < 4"
  proof (rule ccontr)
    assume "\<not> ?n < 4"
    then have "4 \<le> ?n" by simp
    moreover have "?n < length (buf[?n := NUL])" using n by simp
    ultimately have "buf[?n := NUL] ! ?n \<in> set (drop 4 (buf[?n := NUL]))" by (rule nth_in_drop)
    then have "NUL \<in> set (drop 4 (after_strip buf))" using n by (simp add: S)
    with assms(2) show False by auto
  qed
  then show ?thesis by (simp add: S)
qed

lemma digits_after_fgets:
  assumes "length init = 100" and "\<forall>c\<in>set (drop 4 (after_fgets init inp)). isdigit c"
  shows "length (read_line 99 inp) < 4 \<and> drop 4 (after_fgets init inp) = drop 4 init"
proof (cases "read_line 99 inp = []")
  case True
  then show ?thesis by (simp add: after_fgets_def)
next
  case False
  let ?l = "read_line 99 inp"
  let ?B = "after_fgets init inp"
  have B: "?B = ?l @ NUL # drop (Suc (length ?l)) init"
    using False by (simp add: after_fgets_def Let_def)
  have lenB: "length ?B = 100" using assms(1) by (rule length_after_fgets)
  have l99: "length ?l \<le> 99" by (rule read_line_length)
  have "length ?l < 4"
  proof (rule ccontr)
    assume "\<not> length ?l < 4"
    then have "4 \<le> length ?l" by simp
    moreover have "length ?l < length ?B" using lenB l99 by simp
    ultimately have "?B ! length ?l \<in> set (drop 4 ?B)" by (rule nth_in_drop)
    moreover have "?B ! length ?l = NUL" unfolding B by simp
    ultimately show False using assms(2) by auto
  qed
  moreover from this have "drop 4 ?B = drop 4 init"
    unfolding B by (simp add: drop_Cons')
  ultimately show ?thesis by simp
qed

lemma main_safe_fault:
  assumes "length init = 100" and "main_safe inp init draw = Inl f"
  shows "f = OutOfBoundsRead \<and> length (read_line 99 inp) < 4
         \<and> ((inp = [] \<and> \<not> terminated init) \<or> (\<forall>c\<in>set (drop 4 init). isdigit c))"
proof (cases "terminated (after_fgets init inp)")
  case False
  then have inp: "inp = []" using after_fgets_terminated [of inp init] by blast
  with False have "\<not> terminated init" by (simp add: after_fgets_eof)
  moreover from assms False have "f = OutOfBoundsRead" by (simp add: main_safe_unterminated)
  moreover have "read_line 99 [] = []" by (simp add: read_line_empty)
  ultimately show ?thesis using inp by simp
next
  case True
  let ?B = "after_fgets init inp"
  show ?thesis
  proof (cases "numeral_grammar (line_text ?B)")
    case valid: True
    from assms(2) show ?thesis by (simp add: main_safe_valid [OF assms(1) True valid])
  next
    case invalid: False
    from assms(2) have "\<exists>f'. scan_digits 1337 (drop 4 (after_strip ?B)) = Inl f'"
      unfolding main_safe_invalid [OF assms(1) True invalid]
      by (cases "scan_digits 1337 (drop 4 (after_strip ?B))") auto
    then obtain f' where sd: "scan_digits 1337 (drop 4 (after_strip ?B)) = Inl f'" by blast
    with assms(2) have f: "f = f'" by (simp add: main_safe_invalid [OF assms(1) True invalid])
    from scan_digits_fault [OF sd] have f': "f' = OutOfBoundsRead"
      and dig: "\<forall>c\<in>set (drop 4 (after_strip ?B)). isdigit c" by simp_all
    from digits_after_strip [OF True dig] have "drop 4 (after_strip ?B) = drop 4 ?B" by simp
    with dig have "\<forall>c\<in>set (drop 4 ?B). isdigit c" by simp
    from digits_after_fgets [OF assms(1) this] dig \<open>drop 4 (after_strip ?B) = drop 4 ?B\<close>
    have "length (read_line 99 inp) < 4" "\<forall>c\<in>set (drop 4 init). isdigit c" by simp_all
    with f f' show ?thesis by simp
  qed
qed

lemma main_safe_defined:
  assumes "length init = 100"
    and "4 \<le> length (read_line 99 inp)
         \<or> ((inp \<noteq> [] \<or> terminated init) \<and> (\<exists>c\<in>set (drop 4 init). \<not> isdigit c))"
  shows "\<exists>out. main_safe inp init draw = Inr out"
proof (cases "main_safe inp init draw")
  case (Inl f)
  from main_safe_fault [OF assms(1) Inl] assms(2) show ?thesis by auto
next
  case (Inr out)
  then show ?thesis by blast
qed

lemma read_line_Nil: "read_line room [] = []"
  by (cases room) simp_all

lemma read_line_numeral:
  "read_line (numeral n) (c # cs) = (if c = NL then [c] else c # read_line (pred_numeral n) cs)"
  by (simp add: numeral_eq_Suc)

lemma fgets_in_memory:
  assumes "length init = 100"
  shows "fgets (init @ beyond) 100 inp =
           Inr (inp \<noteq> [], after_fgets init inp @ beyond, drop (length (read_line 99 inp)) inp)"
proof -
  let ?l = "read_line 99 inp"
  have "length ?l \<le> 99" by (rule read_line_length)
  with assms have "drop (Suc (length ?l)) (init @ beyond) = drop (Suc (length ?l)) init @ beyond"
    by simp
  then show ?thesis
    using fgets_read_line [of 100 "init @ beyond" inp] assms
    by (simp add: after_fgets_def Let_def read_line_empty)
qed




lemma read_line_line:
  "NL \<notin> set s \<Longrightarrow> length s < room \<Longrightarrow> read_line room (s @ NL # rest) = s @ [NL]"
proof (induction s arbitrary: room)
  case Nil
  then show ?case by (cases room) simp_all
next
  case (Cons c cs)
  then show ?case by (cases room) auto
qed

lemma numeral_grammar_chars:
  assumes "numeral_grammar s"
  shows "\<forall>c\<in>set s. c \<noteq> NUL \<and> c \<noteq> NL \<and> (isdigit c \<or> c = CHR ''+'' \<or> c = CHR ''-'')"
proof -
  have d: "isdigit c \<Longrightarrow> c \<noteq> NUL \<and> c \<noteq> NL" for c by (auto simp: isdigit_def)
  from assms consider "digit_string s"
    | c cs where "s = c # cs" "c = CHR ''+'' \<or> c = CHR ''-''" "digit_string cs"
    unfolding numeral_grammar_cases by blast
  then show ?thesis
  proof cases
    case 1
    then show ?thesis using d by (auto simp: digit_string_isdigit list_all_iff)
  next
    case 2
    then show ?thesis using d by (auto simp: digit_string_isdigit list_all_iff)
  qed
qed

lemma after_fgets_long:
  assumes "length init = 100" and "99 < length inp" and "NL \<notin> set (take 99 inp)"
  shows "after_fgets init inp = take 99 inp @ [NUL]"
proof -
  from assms(3) have l: "read_line 99 inp = take 99 inp" by (simp add: read_line_no_newline)
  from assms(2) have ne: "take 99 inp \<noteq> []" by auto
  from assms(2) have len: "length (take 99 inp) = 99" by simp
  show ?thesis using assms(1) ne len by (simp add: after_fgets_def l)
qed

lemma main_safe_long:
  assumes "length init = 100" and "99 < length inp" and "NL \<notin> set (take 99 inp)"
  shows "\<exists>g. atoi (atoi_operand (take 99 inp @ [NUL])) = Inr g
             \<and> main_safe inp init draw =
                 Inr \<lparr>out_trace =
                          report ([Out prompt] @
                                  (if numeral_grammar (line_text (take 99 inp @ [NUL])) then []
                                   else [Err invalid_msg]))
                            g (generate_secret draw),
                      out_guess = g, out_secret = generate_secret draw\<rparr>"
proof -
  have B: "after_fgets init inp = take 99 inp @ [NUL]" using assms by (rule after_fgets_long)
  from assms(2) have ne: "inp \<noteq> []" by auto
  then have tB: "terminated (after_fgets init inp)" by (rule after_fgets_terminated)
  from assms(3) have "read_line 99 inp = take 99 inp" by (simp add: read_line_no_newline)
  with assms(2) have "4 \<le> length (read_line 99 inp)" by simp
  then obtain out where out: "main_safe inp init draw = Inr out"
    using main_safe_defined [OF assms(1), of inp draw] by blast
  have F: "first_events inp = [Out prompt]" using ne by (simp add: first_events_def)
  show ?thesis
  proof (cases "atoi (atoi_operand (take 99 inp @ [NUL]))")
    case (Inl f)
    with out show ?thesis by (simp add: main_safe_eq [OF assms(1) tB] B)
  next
    case (Inr g)
    then show ?thesis by (simp add: main_safe_eq [OF assms(1) tB] B F)
  qed
qed

lemma main_safe_long_numeral:
  assumes "length init = 100" and "99 < length inp" and "numeral_grammar (take 99 inp)"
  shows "main_safe inp init draw =
           Inr \<lparr>out_trace = report [Out prompt] (int_of_value (numeral_value (take 99 inp)))
                              (generate_secret draw),
                out_guess = int_of_value (numeral_value (take 99 inp)),
                out_secret = generate_secret draw\<rparr>"
proof -
  from numeral_grammar_chars [OF assms(3)]
  have ch: "\<forall>c\<in>set (take 99 inp). c \<noteq> NUL \<and> c \<noteq> NL" by blast
  then have nl: "NL \<notin> set (take 99 inp)" by blast
  have B: "after_fgets init inp = take 99 inp @ [NUL]"
    using assms(1,2) nl by (rule after_fgets_long)
  from assms(2) have ne: "inp \<noteq> []" by auto
  then have tB: "terminated (after_fgets init inp)" by (rule after_fgets_terminated)
  have T: "line_text (after_fgets init inp) = take 99 inp"
    unfolding B line_text_def using ch by (simp add: takeWhile_append2)
  have F: "first_events inp = [Out prompt]" using ne by (simp add: first_events_def)
  from main_safe_valid [OF assms(1) tB, of draw] assms(3) show ?thesis
    by (simp add: T F)
qed

section \<open>Concrete runs\<close>

lemma render_int_13375: "render_int 13375 = ''13375''"
  by (simp add: render_defs)

lemma render_int_1337: "render_int 1337 = ''1337''"
  by (simp add: render_defs)

lemma render_int_42: "render_int 42 = ''42''"
  by (simp add: render_defs)

lemma main_safe_run:
  assumes "length init = 100" and "terminated (after_fgets init inp)"
    and "atoi_operand (after_fgets init inp) = operand"
    and "atoi operand = Inr g"
  shows "main_safe inp init draw =
           Inr \<lparr>out_trace =
                    report (first_events inp @
                            (if numeral_grammar (line_text (after_fgets init inp)) then []
                             else [Err invalid_msg]))
                      g (generate_secret draw),
                out_guess = g, out_secret = generate_secret draw\<rparr>"
  using assms(3,4) by (simp add: main_safe_eq [OF assms(1,2)])

lemmas run_defs = after_fgets_def Let_def read_line_numeral read_line_Nil line_text_def
  after_strip_def atoi_operand_def numeral_grammar_def digit_string_def ascii_digit_def
  terminated_def

lemmas report_defs = report_def printf_def compare_def verdict_msg_def invalid_msg_def
  read_error_msg_def prompt_def

lemma run_50:
  "main_safe (''50'' @ [NL]) (replicate 100 NUL) 49 =
     Inr \<lparr>out_trace = [Out ''pls guess a number: '',
                        Out (''congrats'' @ [NL]),
                        Out (''you guessed : 50'' @ [NL]),
                        Out (''secret num. : 50'' @ [NL])],
          out_guess = 50, out_secret = 50\<rparr>"
proof -
  let ?init = "replicate 100 NUL" and ?inp = "''50'' @ [NL]"
  have B: "after_fgets ?init ?inp = ''50'' @ [NL, NUL] @ replicate 96 NUL"
    by (simp add: run_defs)
  have T: "line_text (after_fgets ?init ?inp) = ''50''"
    unfolding B by (simp add: line_text_def)
  have V: "numeral_grammar ''50'' = True"
    by (simp add: numeral_grammar_def digit_string_def ascii_digit_def)
  have O: "atoi_operand (after_fgets ?init ?inp) = ''50'' @ [NUL, NUL] @ replicate 96 NUL"
    unfolding atoi_operand_def T V unfolding after_strip_def T unfolding B by simp
  have A: "atoi (''50'' @ [NUL, NUL] @ replicate 96 NUL) = Inr 50"
    by (simp add: atoi_defs)
  have tB: "terminated (after_fgets ?init ?inp)" unfolding B by (simp add: terminated_def)
  have F: "first_events ?inp = [Out ''pls guess a number: '']"
    by (simp add: first_events_def prompt_def)
  have R: "report [Out ''pls guess a number: ''] 50 50 =
     [Out ''pls guess a number: '',
      Out (''congrats'' @ [NL]),
      Out (''you guessed : 50'' @ [NL]),
      Out (''secret num. : 50'' @ [NL])]"
    by (simp add: report_defs render_int_50)
  show ?thesis
    unfolding main_safe_run [OF length_replicate tB O A] T V F generate_secret_49
    using R by simp
qed

lemma run_eof_42:
  "main_safe [] (''42'' @ replicate 98 NUL) 49 =
     Inr \<lparr>out_trace = [Out ''pls guess a number: '',
                        Err (''Error reading input.'' @ [NL]),
                        Out (''too small'' @ [NL]),
                        Out (''you guessed : 42'' @ [NL]),
                        Out (''secret num. : 50'' @ [NL])],
          out_guess = 42, out_secret = 50\<rparr>"
proof -
  let ?init = "''42'' @ replicate 98 NUL" and ?inp = "[] :: char list"
  have len: "length ?init = 100" by simp
  have B: "after_fgets ?init ?inp = ''42'' @ replicate 98 NUL"
    by (simp add: after_fgets_eof)
  have T: "line_text (after_fgets ?init ?inp) = ''42''"
    unfolding B by (simp add: line_text_def)
  have V: "numeral_grammar ''42'' = True"
    by (simp add: numeral_grammar_def digit_string_def ascii_digit_def)
  have O: "atoi_operand (after_fgets ?init ?inp) = ''42'' @ [NUL] @ replicate 97 NUL"
    unfolding atoi_operand_def T V unfolding after_strip_def T unfolding B by simp
  have A: "atoi (''42'' @ [NUL] @ replicate 97 NUL) = Inr 42"
    by (simp add: atoi_defs)
  have tB: "terminated (after_fgets ?init ?inp)" unfolding B by (simp add: terminated_def)
  have F: "first_events ?inp = [Out ''pls guess a number: '', Err (''Error reading input.'' @ [NL])]"
    by (simp add: first_events_def prompt_def read_error_msg_def)
  have R: "report [Out ''pls guess a number: '', Err (''Error reading input.'' @ [NL])] 42 50 =
     [Out ''pls guess a number: '',
      Err (''Error reading input.'' @ [NL]),
      Out (''too small'' @ [NL]),
      Out (''you guessed : 42'' @ [NL]),
      Out (''secret num. : 50'' @ [NL])]"
    by (simp add: report_defs render_int_42 render_int_50)
  show ?thesis
    unfolding main_safe_run [OF len tB O A] T V F generate_secret_49
    using R by simp
qed

lemma run_eof_unterminated:
  "main_safe [] (replicate 100 (CHR ''x'')) 49 = Inl OutOfBoundsRead"
  by (rule main_safe_unterminated) (simp_all add: after_fgets_eof terminated_def)

lemma long_line_operand:
  "atoi_operand (take 99 (replicate 150 (CHR ''x'')) @ [NUL])
     = ''1337'' @ replicate 95 (CHR ''x'') @ [NUL]
   \<and> numeral_grammar (line_text (take 99 (replicate 150 (CHR ''x'')) @ [NUL])) = False"
proof -
  let ?B = "take 99 (replicate 150 (CHR ''x'')) @ [NUL]"
  have B: "?B = replicate 99 (CHR ''x'') @ [NUL]" by simp
  have T: "line_text ?B = replicate 99 (CHR ''x'')"
    unfolding B line_text_def by (subst takeWhile_append2) simp_all
  have V: "numeral_grammar (replicate 99 (CHR ''x'')) = False"
  proof -
    have "\<not> isdigit (CHR ''x'')" by (simp add: isdigit_def)
    then show ?thesis using numeral_grammar_chars [of "replicate 99 (CHR ''x'')"] by auto
  qed
  have S: "after_strip ?B = replicate 99 (CHR ''x'') @ [NUL]"
    unfolding after_strip_def T unfolding B by simp
  show ?thesis unfolding atoi_operand_def T V S by simp
qed

lemma atoi_long_line: "atoi (''1337'' @ replicate 95 (CHR ''x'') @ [NUL]) = Inr 1337"
proof -
  have "\<not> isdigit (CHR ''x'')" by (simp add: isdigit_def)
  then have "scan_digits 1337 (replicate 95 (CHR ''x'') @ [NUL]) = Inr 1337"
    by (intro scan_digits_stop_hd) simp_all
  then show ?thesis
    using atoi_fallback [of "replicate 95 (CHR ''x'') @ [NUL]"]
    by (simp add: int_of_value_def to_int_def LONG_MIN_def LONG_MAX_def)
qed


section \<open>The bounded read\<close>

text \<open>
  C2. \<^verbatim>\<open>fgets(buffer, 100, stdin)\<close> never faults on the 100-byte array, takes at most
  99 bytes from the stream and changes nothing beyond the array (\<open>beyond\<close> is whatever
  memory follows it). For a line longer than that (no new-line among the first 99
  bytes, more bytes after them) the array holds exactly those 99 bytes and the terminator,
  and the program goes on to its end, whatever the array held before: the run is the run
  on the truncated text, \<^verbatim>\<open>atoi\<close> returns a guess \<open>g\<close> from the array built from
  those 99 bytes, the invalid-input line is printed exactly when the truncated text is
  not a numeral, and the verdict and both values are reported for \<open>g\<close>. When the 99
  bytes are a numeral, \<open>g\<close> is its value as \<^verbatim>\<open>(int) strtol\<close> converts it. On every
  non-empty input the writes that follow the read (the new-line cut, the four fallback
  bytes) stay inside the array.
\<close>

theorem fgets_bounded:
  assumes "length init = 100"
  shows "(\<exists>ok buf consumed rest.
            fgets (init @ beyond) 100 inp = Inr (ok, buf @ beyond, rest)
            \<and> length buf = 100 \<and> inp = consumed @ rest \<and> length consumed \<le> 99)
         \<and> (99 < length inp \<and> NL \<notin> set (take 99 inp) \<longrightarrow>
              fgets init 100 inp = Inr (True, take 99 inp @ [NUL], drop 99 inp)
              \<and> main_safe inp init draw = main_safe (take 99 inp) init draw
              \<and> (\<exists>g. atoi (atoi_operand (take 99 inp @ [NUL])) = Inr g
                    \<and> main_safe inp init draw =
                        Inr \<lparr>out_trace =
                                 report ([Out prompt] @
                                         (if numeral_grammar (line_text (take 99 inp @ [NUL]))
                                          then [] else [Err invalid_msg]))
                                   g (generate_secret draw),
                             out_guess = g, out_secret = generate_secret draw\<rparr>))
         \<and> (99 < length inp \<and> numeral_grammar (take 99 inp) \<longrightarrow>
              main_safe inp init draw =
                Inr \<lparr>out_trace = report [Out prompt] (int_of_value (numeral_value (take 99 inp)))
                                   (generate_secret draw),
                     out_guess = int_of_value (numeral_value (take 99 inp)),
                     out_secret = generate_secret draw\<rparr>)
         \<and> (inp \<noteq> [] \<longrightarrow>
              (\<exists>t buf t' buf'. acquire_line init inp = Inr (t, buf) \<and> length buf = 100
                 \<and> check_input t buf = Inr (t', buf') \<and> length buf' = 100))"
proof (intro conjI impI)
  let ?l = "read_line 99 inp"
  have "fgets (init @ beyond) 100 inp = Inr (inp \<noteq> [], after_fgets init inp @ beyond, drop (length ?l) inp)"
    using assms by (rule fgets_in_memory)
  moreover have "length (after_fgets init inp) = 100" using assms by (rule length_after_fgets)
  moreover have "inp = ?l @ drop (length ?l) inp" by (simp add: read_line_prefix)
  moreover have "length ?l \<le> 99" by (rule read_line_length)
  ultimately show "\<exists>ok buf consumed rest.
            fgets (init @ beyond) 100 inp = Inr (ok, buf @ beyond, rest)
            \<and> length buf = 100 \<and> inp = consumed @ rest \<and> length consumed \<le> 99"
    by blast
next
  assume long: "99 < length inp \<and> NL \<notin> set (take 99 inp)"
  then have l: "read_line 99 inp = take 99 inp" by (simp add: read_line_no_newline)
  from long have ne: "take 99 inp \<noteq> []" by auto
  from long have len: "length (take 99 inp) = 99" by simp
  show "fgets init 100 inp = Inr (True, take 99 inp @ [NUL], drop 99 inp)"
    using fgets_read_line [of 100 init inp] assms ne len by (simp add: l)
next
  show "main_safe inp init draw = main_safe (take 99 inp) init draw"
    using assms by (simp add: main_safe_take)
next
  assume long: "99 < length inp \<and> NL \<notin> set (take 99 inp)"
  then show "\<exists>g. atoi (atoi_operand (take 99 inp @ [NUL])) = Inr g
                    \<and> main_safe inp init draw =
                        Inr \<lparr>out_trace =
                                 report ([Out prompt] @
                                         (if numeral_grammar (line_text (take 99 inp @ [NUL]))
                                          then [] else [Err invalid_msg]))
                                   g (generate_secret draw),
                             out_guess = g, out_secret = generate_secret draw\<rparr>"
    using main_safe_long [OF assms, of inp draw] by blast
next
  assume "99 < length inp \<and> numeral_grammar (take 99 inp)"
  then show "main_safe inp init draw =
                Inr \<lparr>out_trace = report [Out prompt] (int_of_value (numeral_value (take 99 inp)))
                                   (generate_secret draw),
                     out_guess = int_of_value (numeral_value (take 99 inp)),
                     out_secret = generate_secret draw\<rparr>"
    using main_safe_long_numeral [OF assms, of inp draw] by blast
next
  assume ne: "inp \<noteq> []"
  let ?B = "after_fgets init inp"
  from ne have tB: "terminated ?B" by (rule after_fgets_terminated)
  have len: "length (after_strip ?B) = 100"
    using tB assms by (simp add: length_after_strip length_after_fgets)
  then have "4 \<le> length (after_strip ?B)" by simp
  from check_input_eq [OF this, of "first_events inp"] len tB
  show "\<exists>t buf t' buf'. acquire_line init inp = Inr (t, buf) \<and> length buf = 100
                 \<and> check_input t buf = Inr (t', buf') \<and> length buf' = 100"
    by (auto simp: acquire_line_eq [OF assms])
qed

theorem fgets_bounded_witness:
  "length (replicate 100 NUL) = 100
   \<and> 99 < length (replicate 150 (CHR ''x''))
   \<and> NL \<notin> set (take 99 (replicate 150 (CHR ''x'')))
   \<and> fgets (replicate 100 NUL) 100 (replicate 150 (CHR ''x''))
       = Inr (True, replicate 99 (CHR ''x'') @ [NUL], replicate 51 (CHR ''x''))
   \<and> main_safe (replicate 150 (CHR ''x'')) (replicate 100 NUL) 49
       = main_safe (replicate 99 (CHR ''x'')) (replicate 100 NUL) 49
   \<and> main_safe (replicate 150 (CHR ''x'')) (replicate 100 NUL) 49 =
       Inr \<lparr>out_trace = [Out ''pls guess a number: '',
                          Err (''Invalid input. Please enter a number.'' @ [NL]),
                          Out (''too much'' @ [NL]),
                          Out (''you guessed : 1337'' @ [NL]),
                          Out (''secret num. : 50'' @ [NL])],
            out_guess = 1337, out_secret = 50\<rparr>"
proof -
  let ?inp = "replicate 150 (CHR ''x'')"
  have hyp: "99 < length ?inp \<and> NL \<notin> set (take 99 ?inp)" by simp
  note inst = fgets_bounded [where init = "replicate 100 NUL" and beyond = "[]"
      and inp = ?inp and draw = 49,
      OF length_replicate, THEN conjunct2, THEN conjunct1, rule_format, OF hyp]
  from inst have a: "fgets (replicate 100 NUL) 100 ?inp
       = Inr (True, replicate 99 (CHR ''x'') @ [NUL], replicate 51 (CHR ''x''))"
    and b: "main_safe ?inp (replicate 100 NUL) 49
       = main_safe (replicate 99 (CHR ''x'')) (replicate 100 NUL) 49"
    by simp_all
  from inst obtain g where g: "atoi (atoi_operand (take 99 ?inp @ [NUL])) = Inr g"
    and m: "main_safe ?inp (replicate 100 NUL) 49 =
              Inr \<lparr>out_trace =
                       report ([Out prompt] @
                               (if numeral_grammar (line_text (take 99 ?inp @ [NUL]))
                                then [] else [Err invalid_msg]))
                         g (generate_secret 49),
                   out_guess = g, out_secret = generate_secret 49\<rparr>"
    by blast
  from g have g1337: "g = 1337"
    unfolding long_line_operand [THEN conjunct1] atoi_long_line by simp
  have R: "report [Out prompt, Err invalid_msg] 1337 50 =
     [Out ''pls guess a number: '',
      Err (''Invalid input. Please enter a number.'' @ [NL]),
      Out (''too much'' @ [NL]),
      Out (''you guessed : 1337'' @ [NL]),
      Out (''secret num. : 50'' @ [NL])]"
    by (simp add: report_defs render_int_1337 render_int_50)
  have c: "main_safe ?inp (replicate 100 NUL) 49 =
       Inr \<lparr>out_trace = [Out ''pls guess a number: '',
                          Err (''Invalid input. Please enter a number.'' @ [NL]),
                          Out (''too much'' @ [NL]),
                          Out (''you guessed : 1337'' @ [NL]),
                          Out (''secret num. : 50'' @ [NL])],
            out_guess = 1337, out_secret = 50\<rparr>"
    unfolding m long_line_operand [THEN conjunct2] g1337 generate_secret_49
    using R by simp
  from a b c show ?thesis by simp
qed

section \<open>The report\<close>



section \<open>The fallback\<close>

text \<open>
  C3. The input \<^verbatim>\<open>abcd5\<close> fails the validation, the error is reported, and the
  four bytes \<^verbatim>\<open>1337\<close> are stored over \<^verbatim>\<open>abcd\<close>; no terminator is
  stored, so \<^verbatim>\<open>atoi\<close> reads on into the rest of the input and the guess is 13375,
  not 1337.
\<close>

theorem safe_fallback_no_terminator:
  "main_safe (''abcd5'' @ [NL]) (replicate 100 NUL) 49 =
     Inr \<lparr>out_trace = [Out ''pls guess a number: '',
                        Err (''Invalid input. Please enter a number.'' @ [NL]),
                        Out (''too much'' @ [NL]),
                        Out (''you guessed : 13375'' @ [NL]),
                        Out (''secret num. : 50'' @ [NL])],
          out_guess = 13375, out_secret = 50\<rparr>"
proof -
  let ?init = "replicate 100 NUL" and ?inp = "''abcd5'' @ [NL]"
  have B: "after_fgets ?init ?inp = ''abcd5'' @ [NL, NUL] @ replicate 93 NUL"
    by (simp add: run_defs)
  have T: "line_text (after_fgets ?init ?inp) = ''abcd5''"
    unfolding B by (simp add: line_text_def)
  have O: "atoi_operand (after_fgets ?init ?inp) = ''13375'' @ [NUL, NUL] @ replicate 93 NUL"
    unfolding atoi_operand_def T unfolding B by (simp add: run_defs)
  have A: "atoi (''13375'' @ [NUL, NUL] @ replicate 93 NUL) = Inr 13375"
    by (simp add: atoi_defs)
  have tB: "terminated (after_fgets ?init ?inp)" unfolding B by (simp add: terminated_def)
  have V: "numeral_grammar ''abcd5'' = False"
    by (simp add: numeral_grammar_def digit_string_def ascii_digit_def)
  have F: "first_events ?inp = [Out ''pls guess a number: '']"
    by (simp add: first_events_def prompt_def)
  have R: "report [Out ''pls guess a number: '', Err invalid_msg] 13375 50 =
     [Out ''pls guess a number: '',
      Err (''Invalid input. Please enter a number.'' @ [NL]),
      Out (''too much'' @ [NL]),
      Out (''you guessed : 13375'' @ [NL]),
      Out (''secret num. : 50'' @ [NL])]"
    by (simp add: report_defs render_int_13375 render_int_50)
  show ?thesis
    unfolding main_safe_run [OF length_replicate tB O A] T V F generate_secret_49
    using R by simp
qed

text \<open>
  C4. At end-of-file \<^verbatim>\<open>fgets\<close> leaves the array as it was; the error is reported
  and the program goes on to parse the uninitialised array. If it holds \<^verbatim>\<open>42\<close>
  the guess is 42; if it holds no null byte or new-line the scan leaves the array.
\<close>

theorem safe_eof_parses_uninitialised:
  "main_safe [] (''42'' @ replicate 98 NUL) 49 =
     Inr \<lparr>out_trace = [Out ''pls guess a number: '',
                        Err (''Error reading input.'' @ [NL]),
                        Out (''too small'' @ [NL]),
                        Out (''you guessed : 42'' @ [NL]),
                        Out (''secret num. : 50'' @ [NL])],
          out_guess = 42, out_secret = 50\<rparr>
   \<and> main_safe [] (replicate 100 (CHR ''x'')) 49 = Inl OutOfBoundsRead"
  by (rule conjI [OF run_eof_42 run_eof_unterminated])

text \<open>
  C9. For the input of a new-line alone only the invalid-input error is reported, and the
  four fallback bytes are stored; the guess is then read from them and from the
  uninitialised byte after them: with \<^verbatim>\<open>5\<close> there, it is 13375.
\<close>

theorem safe_empty_line_guess:
  "main_safe [NL] (''xxxx5'' @ [NUL] @ replicate 94 NUL) 49 =
     Inr \<lparr>out_trace = [Out ''pls guess a number: '',
                        Err (''Invalid input. Please enter a number.'' @ [NL]),
                        Out (''too much'' @ [NL]),
                        Out (''you guessed : 13375'' @ [NL]),
                        Out (''secret num. : 50'' @ [NL])],
          out_guess = 13375, out_secret = 50\<rparr>"
proof -
  let ?init = "''xxxx5'' @ [NUL] @ replicate 94 NUL" and ?inp = "[NL]"
  have len: "length ?init = 100" by simp
  have B: "after_fgets ?init ?inp = [NL, NUL] @ ''xx5'' @ [NUL] @ replicate 94 NUL"
    by (simp add: run_defs)
  have T: "line_text (after_fgets ?init ?inp) = []"
    unfolding B by (simp add: line_text_def)
  have V: "numeral_grammar [] = False"
    by (simp add: numeral_grammar_def digit_string_def)
  have O: "atoi_operand (after_fgets ?init ?inp) = ''13375'' @ [NUL] @ replicate 94 NUL"
    unfolding atoi_operand_def T V unfolding after_strip_def T unfolding B by simp
  have A: "atoi (''13375'' @ [NUL] @ replicate 94 NUL) = Inr 13375"
    by (simp add: atoi_defs)
  have tB: "terminated (after_fgets ?init ?inp)" unfolding B by (simp add: terminated_def)
  have F: "first_events ?inp = [Out ''pls guess a number: '']"
    by (simp add: first_events_def prompt_def)
  have R: "report [Out ''pls guess a number: '', Err invalid_msg] 13375 50 =
     [Out ''pls guess a number: '',
      Err (''Invalid input. Please enter a number.'' @ [NL]),
      Out (''too much'' @ [NL]),
      Out (''you guessed : 13375'' @ [NL]),
      Out (''secret num. : 50'' @ [NL])]"
    by (simp add: report_defs render_int_13375 render_int_50)
  show ?thesis
    unfolding main_safe_run [OF len tB O A] T V F generate_secret_49
    using R by simp
qed

section \<open>Further properties of the safe program\<close>

lemma atoi_1337: "\<not> isdigit c \<Longrightarrow> atoi (''1337'' @ c # r) = Inr 1337"
  using atoi_fallback [of "c # r"]
  by (simp add: int_of_value_def to_int_def LONG_MIN_def LONG_MAX_def)

text \<open>
  X1. A line that is a numeral of the grammar, shorter than the array and ended by a
  new-line, is accepted without any error message, for every initial content of the
  array; the guess is the value of the numeral as \<^verbatim>\<open>(int) strtol\<close> converts it,
  which is the value itself when it fits \<^verbatim>\<open>int\<close>.
\<close>

theorem safe_valid_line:
  assumes "length init = 100" and "numeral_grammar s" and "length s < 99"
  shows "main_safe (s @ NL # rest) init draw =
           Inr \<lparr>out_trace = report [Out prompt] (int_of_value (numeral_value s))
                              (generate_secret draw),
                out_guess = int_of_value (numeral_value s), out_secret = generate_secret draw\<rparr>
         \<and> (INT_MIN \<le> numeral_value s \<and> numeral_value s \<le> INT_MAX \<longrightarrow>
              int_of_value (numeral_value s) = numeral_value s)"
proof -
  let ?inp = "s @ NL # rest"
  let ?B = "after_fgets init ?inp"
  from numeral_grammar_chars [OF assms(2)] have ch: "\<forall>c\<in>set s. c \<noteq> NUL \<and> c \<noteq> NL" by blast
  then have "NL \<notin> set s" by auto
  then have l: "read_line 99 ?inp = s @ [NL]" using assms(3) by (rule read_line_line)
  have B: "?B = s @ NL # NUL # drop (length s + 2) init"
    by (simp add: after_fgets_def l)
  have T: "line_text ?B = s"
    unfolding B line_text_def using ch by (simp add: takeWhile_append2)
  have tB: "terminated ?B" by (rule after_fgets_terminated) simp
  have F: "first_events ?inp = [Out prompt]" by (simp add: first_events_def)
  from main_safe_valid [OF assms(1) tB, of draw] assms(2)
  have "main_safe ?inp init draw =
           Inr \<lparr>out_trace = report [Out prompt] (int_of_value (numeral_value s))
                              (generate_secret draw),
                out_guess = int_of_value (numeral_value s), out_secret = generate_secret draw\<rparr>"
    by (simp add: T F)
  then show ?thesis by (simp add: int_of_value_id)
qed

theorem safe_valid_line_witness:
  "main_safe (''-5'' @ NL # []) (replicate 100 NUL) 49 =
     Inr \<lparr>out_trace = [Out ''pls guess a number: '', Out (''too small'' @ [NL]),
                        Out (''you guessed : -5'' @ [NL]), Out (''secret num. : 50'' @ [NL])],
          out_guess = - 5, out_secret = 50\<rparr>"
  using safe_valid_line [where init = "replicate 100 NUL" and s = "''-5''" and rest = "[]"
      and draw = 49, OF length_replicate]
  by (simp add: numeral_grammar_def digit_string_def ascii_digit_def numeral_value_def
      decimal_def digit_val_def int_of_value_def to_int_def LONG_MIN_def LONG_MAX_def
      report_defs render_defs generate_secret_49)

text \<open>
  X2. For every initial content of the array, a line that is a new-line alone makes
  \<^verbatim>\<open>fgets\<close> succeed (no read error is reported), fails the validation (the
  invalid-input error is reported) and gets the four fallback bytes stored at the start
  of the array; \<^verbatim>\<open>atoi\<close> then reads those bytes and the uninitialised ones from
  index 4 on, so the guess is 1337 when the byte at index 4 is not a digit.
\<close>

theorem safe_empty_line_classified:
  assumes "length init = 100"
  shows "acquire_line init (NL # rest) = Inr ([Out prompt], NUL # NUL # drop 2 init)
         \<and> check_input [Out prompt] (NUL # NUL # drop 2 init)
             = Inr ([Out prompt, Err invalid_msg], ''1337'' @ drop 4 init)
         \<and> main_safe (NL # rest) init draw =
             and_then (atoi (''1337'' @ drop 4 init)) (\<lambda>guess.
               Inr \<lparr>out_trace = report [Out prompt, Err invalid_msg] guess (generate_secret draw),
                    out_guess = guess, out_secret = generate_secret draw\<rparr>)
         \<and> (\<not> isdigit (init ! 4) \<longrightarrow>
              main_safe (NL # rest) init draw =
                Inr \<lparr>out_trace = report [Out prompt, Err invalid_msg] 1337 (generate_secret draw),
                     out_guess = 1337, out_secret = generate_secret draw\<rparr>)"
proof -
  let ?inp = "NL # rest"
  let ?B = "after_fgets init ?inp"
  have l: "read_line 99 ?inp = [NL]" by (simp add: read_line_numeral)
  have B: "?B = NL # NUL # drop 2 init" by (simp add: after_fgets_def l numeral_2_eq_2)
  have T: "line_text ?B = []" unfolding B by (simp add: line_text_def)
  have S: "after_strip ?B = NUL # NUL # drop 2 init"
    unfolding after_strip_def T unfolding B by simp
  have tB: "terminated ?B" by (rule after_fgets_terminated) simp
  have V: "numeral_grammar [] = False" by (simp add: numeral_grammar_def digit_string_def)
  have d4: "drop 4 (NUL # NUL # drop 2 init) = drop 4 init" by (simp add: drop_Cons')
  have O: "atoi_operand ?B = ''1337'' @ drop 4 init"
    unfolding atoi_operand_def T V S d4 by simp
  have F: "first_events ?inp = [Out prompt]" by (simp add: first_events_def)
  have acq: "acquire_line init ?inp = Inr ([Out prompt], NUL # NUL # drop 2 init)"
    using tB by (simp add: acquire_line_eq [OF assms] F S)
  have "4 \<le> length (after_strip ?B)" unfolding S using assms by simp
  from check_input_eq [OF this, of "[Out prompt]"]
  have chk: "check_input [Out prompt] (NUL # NUL # drop 2 init)
             = Inr ([Out prompt, Err invalid_msg], ''1337'' @ drop 4 init)"
    unfolding T V S d4 by simp
  have main: "main_safe ?inp init draw =
             and_then (atoi (''1337'' @ drop 4 init)) (\<lambda>guess.
               Inr \<lparr>out_trace = report [Out prompt, Err invalid_msg] guess (generate_secret draw),
                    out_guess = guess, out_secret = generate_secret draw\<rparr>)"
    unfolding main_safe_eq [OF assms tB] O T V F by simp
  have "\<not> isdigit (init ! 4) \<Longrightarrow> atoi (''1337'' @ drop 4 init) = Inr 1337"
  proof -
    assume nd: "\<not> isdigit (init ! 4)"
    have "drop 4 init = init ! 4 # drop 5 init"
      using assms by (simp add: Cons_nth_drop_Suc [symmetric])
    with atoi_1337 [OF nd, of "drop 5 init"] show ?thesis by simp
  qed
  with acq chk main show ?thesis by simp
qed

theorem safe_empty_line_classified_witness:
  "acquire_line (replicate 100 NUL) [NL] = Inr ([Out prompt], replicate 100 NUL)
   \<and> \<not> isdigit (replicate 100 NUL ! 4)
   \<and> main_safe [NL] (replicate 100 NUL) 49 =
       Inr \<lparr>out_trace = [Out ''pls guess a number: '',
                          Err (''Invalid input. Please enter a number.'' @ [NL]),
                          Out (''too much'' @ [NL]),
                          Out (''you guessed : 1337'' @ [NL]),
                          Out (''secret num. : 50'' @ [NL])],
            out_guess = 1337, out_secret = 50\<rparr>"
proof -
  note inst = safe_empty_line_classified [where init = "replicate 100 NUL" and rest = "[]"
      and draw = 49, OF length_replicate]
  have r: "NUL # NUL # replicate 98 NUL = replicate 100 NUL"
    by (simp add: numeral_eq_Suc)
  from inst [THEN conjunct1] have "acquire_line (replicate 100 NUL) [NL] = Inr ([Out prompt], replicate 100 NUL)"
    by (simp add: r)
  moreover have nd: "\<not> isdigit (replicate 100 NUL ! 4)" by (simp add: isdigit_def)
  moreover from inst [THEN conjunct2, THEN conjunct2, THEN conjunct2, rule_format, OF nd]
  have "main_safe [NL] (replicate 100 NUL) 49 =
       Inr \<lparr>out_trace = [Out ''pls guess a number: '',
                          Err (''Invalid input. Please enter a number.'' @ [NL]),
                          Out (''too much'' @ [NL]),
                          Out (''you guessed : 1337'' @ [NL]),
                          Out (''secret num. : 50'' @ [NL])],
            out_guess = 1337, out_secret = 50\<rparr>"
    by (simp add: report_defs render_int_1337 render_int_50 generate_secret_49)
  ultimately show ?thesis by blast
qed

end
